theory Spec2Isabelle
  imports Complex_Main "HOL-Library.AList"
begin

section \<open>Vertex store: class CapNode\<close>

text \<open>
  A vertex carries its identifier, the ordered list of vertices it follows
  (\<open>neighbors\<close>), the ordered list of its followers and the trend-setter flag.
  Vertex identifiers are JavaScript numbers read with \<open>parseInt\<close>; they are
  modelled as integers.
\<close>

record CapNode =
  name :: int
  neighbors :: "int list"
  followers :: "int list"
  isTrendSetter :: bool

definition newCapNode :: "int \<Rightarrow> CapNode" where
  "newCapNode n = \<lparr>name = n, neighbors = [], followers = [], isTrendSetter = False\<rparr>"

definition addFollower :: "int \<Rightarrow> CapNode \<Rightarrow> CapNode" where
  "addFollower follower node = node\<lparr>followers := followers node @ [follower]\<rparr>"

definition getFollowers :: "CapNode \<Rightarrow> int list" where
  "getFollowers node = followers node"

definition addNeighbor :: "int \<Rightarrow> CapNode \<Rightarrow> CapNode" where
  "addNeighbor neighbor node = node\<lparr>neighbors := neighbors node @ [neighbor]\<rparr>"

definition getNeighbors :: "CapNode \<Rightarrow> int list" where
  "getNeighbors node = neighbors node"

definition getNumNeighbors :: "CapNode \<Rightarrow> nat" where
  "getNumNeighbors node = length (neighbors node)"

definition getIsTrendSetter :: "CapNode \<Rightarrow> bool" where
  "getIsTrendSetter node = isTrendSetter node"

definition setIsTrendSetter :: "bool \<Rightarrow> CapNode \<Rightarrow> CapNode" where
  "setIsTrendSetter b node = node\<lparr>isTrendSetter := b\<rparr>"

text \<open>
  \<open>Array.prototype.indexOf\<close>: the position of the first occurrence, \<open>-1\<close> when
  there is none.
\<close>

fun indexOfFrom :: "int \<Rightarrow> int list \<Rightarrow> int \<Rightarrow> int" where
  "indexOfFrom i [] x = -1"
| "indexOfFrom i (y # ys) x = (if y = x then i else indexOfFrom (i + 1) ys x)"

definition indexOf :: "int list \<Rightarrow> int \<Rightarrow> int" where
  "indexOf xs x = indexOfFrom 0 xs x"

text \<open>
  \<open>Array.prototype.splice(start, 1)\<close>: a negative \<open>start\<close> counts from the end
  of the array (clamped at 0), a \<open>start\<close> past the end is clamped to the length;
  one element is deleted at the resulting position when there is one.
\<close>

definition splice1 :: "int list \<Rightarrow> int \<Rightarrow> int list" where
  "splice1 xs start =
     (let len = int (length xs);
          s = (if start < 0 then max (len + start) 0 else min start len)
      in take (nat s) xs @ drop (nat s + 1) xs)"

text \<open>
  \<open>removeNeighbor\<close> writes a line to the console when the neighbour is absent and
  then calls \<open>splice\<close> in either case. The console lines are returned with the
  updated vertex.
\<close>

definition couldntFindMessage :: string where
  "couldntFindMessage = ''removeNeighbor couldn't find the object''"

definition removeNeighbor :: "int \<Rightarrow> CapNode \<Rightarrow> string list \<times> CapNode" where
  "removeNeighbor neighbor node =
     (let index = indexOf (neighbors node) neighbor;
          out = (if index = -1 then [couldntFindMessage] else [])
      in (out, node\<lparr>neighbors := splice1 (neighbors node) index\<rparr>))"

section \<open>Directed graph: class CapGraph\<close>

text \<open>
  \<open>listMap\<close> is a JavaScript \<open>Map\<close> from identifiers to vertex objects. A
  \<open>Map\<close> iterates in insertion order and \<open>set\<close> on a present key replaces the
  value in place: an association list with \<open>AList.update\<close>. A vertex object is
  reachable through its key only, so mutating the object is updating the entry.
  The private field \<open>vertices\<close> is written by \<open>getSCCs\<close> and read nowhere; it
  is left out.
\<close>

type_synonym CapGraph = "(int \<times> CapNode) list"

datatype error = VertexNotFound int

definition getVertex :: "CapGraph \<Rightarrow> int \<Rightarrow> error + CapNode" where
  "getVertex g num =
     (case map_of g num of None \<Rightarrow> Inl (VertexNotFound num) | Some vertex \<Rightarrow> Inr vertex)"

definition getVertexIDs :: "CapGraph \<Rightarrow> int list" where
  "getVertexIDs g = map fst g"

definition addVertex :: "CapGraph \<Rightarrow> int \<Rightarrow> CapGraph" where
  "addVertex g num = AList.update num (newCapNode num) g"

text \<open>\<open>new CapGraph(node)\<close>: an empty graph, with the vertex when one is given.\<close>

definition newCapGraph :: "int option \<Rightarrow> CapGraph" where
  "newCapGraph node = (case node of None \<Rightarrow> [] | Some n \<Rightarrow> addVertex [] n)"

text \<open>
  A mutating operation returns the error it threw, if any, and the graph as the
  call left it: what was written before a \<open>throw\<close> stays written.
\<close>

definition addEdge :: "CapGraph \<Rightarrow> int \<Rightarrow> int \<Rightarrow> error option \<times> CapGraph" where
  "addEdge g from to =
     (case getVertex g from of
        Inl e \<Rightarrow> (Some e, g)
      | Inr fromNode \<Rightarrow>
          (let g1 = AList.update from (addNeighbor to fromNode) g
           in case getVertex g1 to of
                Inl e \<Rightarrow> (Some e, g1)
              | Inr toNode \<Rightarrow> (None, AList.update to (addFollower from toNode) g1)))"

definition removeEdge ::
  "CapGraph \<Rightarrow> int \<Rightarrow> int \<Rightarrow> error option \<times> string list \<times> CapGraph" where
  "removeEdge g from to =
     (case getVertex g from of
        Inl e \<Rightarrow> (Some e, [], g)
      | Inr fromNode \<Rightarrow>
          (case removeNeighbor to fromNode of
             (out, fromNode') \<Rightarrow> (None, out, AList.update from fromNode' g)))"

text \<open>Every identifier in a following or followers list is a key of the graph.\<close>

definition idsAreKeys :: "CapGraph \<Rightarrow> bool" where
  "idsAreKeys g =
     list_all (\<lambda>(k, node). list_all (\<lambda>i. i \<in> set (getVertexIDs g)) (neighbors node @ followers node)) g"

section \<open>SCC decomposer\<close>

text \<open>
  \<open>dfsVisit\<close> receives the visited set, the finished list and the list of the
  current component by reference and mutates all three; they travel together as
  one state. The \<open>forEach\<close> over the neighbours is \<open>dfsForEach\<close>.
  \<open>finished.unshift(v)\<close> puts \<open>v\<close> at the front of the finished list,
  \<open>sccNodeIDs.push(v)\<close> at the end of the component list.
\<close>

record dfs_state =
  visited :: "int set"
  finished :: "int list"
  sccNodeIDs :: "int list"

function dfsVisit :: "CapGraph \<Rightarrow> int \<Rightarrow> dfs_state \<Rightarrow> error + dfs_state"
  and dfsForEach :: "CapGraph \<Rightarrow> int list \<Rightarrow> dfs_state \<Rightarrow> error + dfs_state" where
  "dfsVisit graph v st =
     (case getVertex graph v of
        Inl e \<Rightarrow> Inl e
      | Inr vNode \<Rightarrow>
          (case dfsForEach graph (getNeighbors vNode) (st\<lparr>visited := insert v (visited st)\<rparr>) of
             Inl e \<Rightarrow> Inl e
           | Inr st' \<Rightarrow>
               Inr (st'\<lparr>finished := v # finished st', sccNodeIDs := sccNodeIDs st' @ [v]\<rparr>)))"
| "dfsForEach graph [] st = Inr st"
| "dfsForEach graph (n # ns) st =
     (if n \<notin> visited st
      then (case dfsVisit graph n st of
              Inl e \<Rightarrow> Inl e
            | Inr st' \<Rightarrow> dfsForEach graph ns st')
      else dfsForEach graph ns st)"
  by pat_completeness auto


text \<open>
  Termination of the recursion: every call of \<open>dfsVisit\<close> from the loop is on
  a vertex outside the visited set, and the visited set only grows. The measure
  counts the identifiers of the graph that are not yet visited.
\<close>

definition allIDs :: "CapGraph \<Rightarrow> int set" where
  "allIDs g = set (getVertexIDs g) \<union> (\<Union>node \<in> snd ` set g. set (neighbors node))"

lemma finite_allIDs: "finite (allIDs g)"
  by (simp add: allIDs_def)

lemma getVertex_neighbors_allIDs:
  "getVertex g v = Inr vNode \<Longrightarrow> set (getNeighbors vNode) \<subseteq> allIDs g"
  by (auto simp: getVertex_def allIDs_def getNeighbors_def split: option.splits
      dest!: map_of_SomeD intro!: bexI [of _ "(v, vNode)"])

lemma dfs_visited_mono_dom:
  "dfsVisit_dfsForEach_dom (Inl (g, v, st)) \<Longrightarrow> dfsVisit g v st = Inr st' \<Longrightarrow>
     visited st \<subseteq> visited st'"
  "dfsVisit_dfsForEach_dom (Inr (g, ns, st)) \<Longrightarrow> dfsForEach g ns st = Inr st' \<Longrightarrow>
     visited st \<subseteq> visited st'"
proof (induct g v st and g ns st arbitrary: st' and st' rule: dfsVisit_dfsForEach.pinduct)
  case (1 graph v st)
  from 1(1,3) obtain vNode st1 where a: "getVertex graph v = Inr vNode"
    and b: "dfsForEach graph (getNeighbors vNode) (st\<lparr>visited := insert v (visited st)\<rparr>) = Inr st1"
    and c: "st' = st1\<lparr>finished := v # finished st1, sccNodeIDs := sccNodeIDs st1 @ [v]\<rparr>"
    by (auto simp: dfsVisit.psimps split: sum.splits)
  from 1(2) [OF a b] c show ?case by auto
next
  case (2 graph st)
  then show ?case by (simp add: dfsForEach.psimps)
next
  case (3 graph n ns st)
  show ?case
  proof (cases "n \<in> visited st")
    case True
    with 3 show ?thesis by (simp add: dfsForEach.psimps)
  next
    case False
    with 3(1,5) obtain st1 where a: "dfsVisit graph n st = Inr st1"
      and b: "dfsForEach graph ns st1 = Inr st'"
      by (auto simp: dfsForEach.psimps split: sum.splits)
    from 3(2) [OF False a] 3(3) [OF False a b] show ?thesis by blast
  qed
qed

definition dfsMeasure ::
  "CapGraph \<times> int \<times> dfs_state + CapGraph \<times> int list \<times> dfs_state \<Rightarrow> nat \<times> nat \<times> nat" where
  "dfsMeasure a =
     (case a of
        Inl (g, v, st) \<Rightarrow> (card (allIDs g - insert v (visited st)), 1, 0)
      | Inr (g, ns, st) \<Rightarrow> (card ((allIDs g \<union> set ns) - visited st), 0, length ns))"

termination dfsVisit
proof (relation "inv_image (less_than <*lex*> less_than <*lex*> less_than) dfsMeasure")
  show "wf (inv_image (less_than <*lex*> less_than <*lex*> less_than) dfsMeasure)"
    by (intro wf_inv_image wf_lex_prod wf_less_than)
next
  fix graph v vNode and st :: dfs_state
  assume "getVertex graph v = Inr vNode"
  then have "allIDs graph \<union> set (getNeighbors vNode) = allIDs graph"
    using getVertex_neighbors_allIDs by blast
  then show "(Inr (graph, getNeighbors vNode, st\<lparr>visited := insert v (visited st)\<rparr>),
              Inl (graph, v, st))
             \<in> inv_image (less_than <*lex*> less_than <*lex*> less_than) dfsMeasure"
    by (simp add: dfsMeasure_def)
next
  fix graph n ns and st :: dfs_state
  assume "n \<notin> visited st"
  then have "allIDs graph - insert n (visited st) \<subset> (allIDs graph \<union> set (n # ns)) - visited st"
    by auto
  then have "card (allIDs graph - insert n (visited st))
             < card ((allIDs graph \<union> set (n # ns)) - visited st)"
    by (intro psubset_card_mono) (simp_all add: finite_allIDs)
  then show "(Inl (graph, n, st), Inr (graph, n # ns, st))
             \<in> inv_image (less_than <*lex*> less_than <*lex*> less_than) dfsMeasure"
    by (simp add: dfsMeasure_def)
next
  fix graph n ns and st st' :: dfs_state
  assume "n \<notin> visited st" "dfsVisit graph n st = Inr st'"
    "dfsVisit_dfsForEach_dom (Inl (graph, n, st))"
  then have "visited st \<subseteq> visited st'"
    using dfs_visited_mono_dom(1) by blast
  then have "(allIDs graph \<union> set ns) - visited st' \<subseteq> (allIDs graph \<union> set (n # ns)) - visited st"
    by auto
  then have "card ((allIDs graph \<union> set ns) - visited st')
             \<le> card ((allIDs graph \<union> set (n # ns)) - visited st)"
    by (intro card_mono) (simp_all add: finite_allIDs)
  then show "(Inr (graph, ns, st'), Inr (graph, n # ns, st))
             \<in> inv_image (less_than <*lex*> less_than <*lex*> less_than) dfsMeasure"
    by (auto simp: dfsMeasure_def)
next
  fix graph n ns and st :: dfs_state
  have "(allIDs graph \<union> set ns) - visited st \<subseteq> (allIDs graph \<union> set (n # ns)) - visited st"
    by auto
  then have "card ((allIDs graph \<union> set ns) - visited st)
             \<le> card ((allIDs graph \<union> set (n # ns)) - visited st)"
    by (intro card_mono) (simp_all add: finite_allIDs)
  then show "(Inr (graph, ns, st), Inr (graph, n # ns, st))
             \<in> inv_image (less_than <*lex*> less_than <*lex*> less_than) dfsMeasure"
    by (auto simp: dfsMeasure_def)
qed


text \<open>
  \<open>dfs\<close>, the first pass: \<open>vertices.pop()\<close> takes the last element of the
  array. The result is the finished list.
\<close>

function dfsLoop :: "CapGraph \<Rightarrow> int list \<Rightarrow> dfs_state \<Rightarrow> error + dfs_state" where
  "dfsLoop graph vertices st =
     (if vertices = [] then Inr st
      else (let v = last vertices; vertices' = butlast vertices
            in if v \<notin> visited st
               then (case dfsVisit graph v st of
                       Inl e \<Rightarrow> Inl e
                     | Inr st' \<Rightarrow> dfsLoop graph vertices' st')
               else dfsLoop graph vertices' st))"
  by pat_completeness auto
termination
  by (relation "measure (\<lambda>(graph, vertices, st). length vertices)") auto

definition dfs :: "CapGraph \<Rightarrow> int list \<Rightarrow> int list \<Rightarrow> error + int list" where
  "dfs graph vertices sccIDs =
     (case dfsLoop graph vertices \<lparr>visited = {}, finished = [], sccNodeIDs = sccIDs\<rparr> of
        Inl e \<Rightarrow> Inl e
      | Inr st \<Rightarrow> Inr (finished st))"

text \<open>
  \<open>transpose\<close> (named \<open>transposeGraph\<close> here): for every vertex \<open>v\<close> in key
  order and every neighbour of \<open>v\<close>, the vertex \<open>v\<close> is appended to the
  neighbour's list in the new graph; vertices are added when first met.
\<close>

fun transposeNeighbors :: "int \<Rightarrow> int list \<Rightarrow> CapGraph \<Rightarrow> error + CapGraph" where
  "transposeNeighbors v [] tg = Inr tg"
| "transposeNeighbors v (neighbor # rest) tg =
     (let tg1 = (if neighbor \<notin> set (getVertexIDs tg) then addVertex tg neighbor else tg)
      in case getVertex tg1 neighbor of
           Inl e \<Rightarrow> Inl e
         | Inr transposedNeighbor \<Rightarrow>
             transposeNeighbors v rest
               (AList.update neighbor (addNeighbor v transposedNeighbor) tg1))"

fun transposeVertices :: "CapGraph \<Rightarrow> int list \<Rightarrow> CapGraph \<Rightarrow> error + CapGraph" where
  "transposeVertices graph [] tg = Inr tg"
| "transposeVertices graph (v # vs) tg =
     (case getVertex graph v of
        Inl e \<Rightarrow> Inl e
      | Inr origiNode \<Rightarrow>
          (let tg1 = (if v \<notin> set (getVertexIDs tg) then addVertex tg v else tg)
           in case transposeNeighbors v (getNeighbors origiNode) tg1 of
                Inl e \<Rightarrow> Inl e
              | Inr tg2 \<Rightarrow> transposeVertices graph vs tg2))"

definition transposeGraph :: "CapGraph \<Rightarrow> error + CapGraph" where
  "transposeGraph graph = transposeVertices graph (getVertexIDs graph) (newCapGraph None)"

text \<open>
  The loop that fills a component graph: each identifier is added to the new
  graph (replacing an entry of the same key) and receives all the neighbours of
  the vertex of that identifier in \<open>this\<close> graph.
\<close>

fun copyNodes :: "CapGraph \<Rightarrow> int list \<Rightarrow> CapGraph \<Rightarrow> error + CapGraph" where
  "copyNodes this [] scc = Inr scc"
| "copyNodes this (nodeID # rest) scc =
     (let scc1 = addVertex scc nodeID
      in case getVertex this nodeID of
           Inl e \<Rightarrow> Inl e
         | Inr origiNode \<Rightarrow>
             (case getVertex scc1 nodeID of
                Inl e \<Rightarrow> Inl e
              | Inr sccNode \<Rightarrow>
                  copyNodes this rest
                    (AList.update nodeID (fold addNeighbor (getNeighbors origiNode) sccNode) scc1)))"

text \<open>
  \<open>dfsGraphList\<close>, the second pass, called on the transposed graph with the
  finished list as \<open>vertices\<close>. It too takes its next root with
  \<open>vertices.pop()\<close>; after a visit the identifiers just collected are filtered
  out of \<open>vertices\<close>. The component graph starts as \<open>new CapGraph(v)\<close>, and
  the collected list is emptied after each round.
\<close>

function dfsGraphListLoop ::
  "CapGraph \<Rightarrow> CapGraph \<Rightarrow> int list \<Rightarrow> dfs_state \<Rightarrow> CapGraph list \<Rightarrow> error + CapGraph list" where
  "dfsGraphListLoop this graph vertices st sccList =
     (if vertices = [] then Inr sccList
      else (let v = last vertices; vertices1 = butlast vertices
            in case (if v \<notin> visited st
                     then (case dfsVisit graph v st of
                             Inl e \<Rightarrow> Inl e
                           | Inr st' \<Rightarrow>
                               Inr (filter (\<lambda>id. id \<notin> set (sccNodeIDs st')) vertices1, st'))
                     else Inr (vertices1, st)) of
                 Inl e \<Rightarrow> Inl e
               | Inr (vertices2, st2) \<Rightarrow>
                   (case copyNodes this (sccNodeIDs st2) (newCapGraph (Some v)) of
                      Inl e \<Rightarrow> Inl e
                    | Inr scc \<Rightarrow>
                        dfsGraphListLoop this graph vertices2 (st2\<lparr>sccNodeIDs := []\<rparr>)
                          (sccList @ [scc]))))"
  by pat_completeness auto
termination
proof (relation "measure (\<lambda>(this, graph, vertices, st, sccList). length vertices)")
  show "wf (measure (\<lambda>(this, graph, vertices, st, sccList). length vertices))"
    by simp
next
  fix this graph :: CapGraph and vertices vertices1 vertices2 :: "int list" and v
    and st st2 :: dfs_state and sccList :: "CapGraph list" and x scc
  assume ne: "vertices \<noteq> []" and v1: "vertices1 = butlast vertices"
    and r: "(if v \<notin> visited st
             then case dfsVisit graph v st of Inl e \<Rightarrow> Inl e
                  | Inr st' \<Rightarrow> Inr (filter (\<lambda>id. id \<notin> set (sccNodeIDs st')) vertices1, st')
             else Inr (vertices1, st)) = Inr x"
    and x: "(vertices2, st2) = x"
  from r x have "length vertices2 \<le> length vertices1"
    by (auto split: if_splits sum.splits)
  with ne v1 show "((this, graph, vertices2, st2\<lparr>sccNodeIDs := []\<rparr>, sccList @ [scc]),
                    (this, graph, vertices, st, sccList))
                   \<in> measure (\<lambda>(this, graph, vertices, st, sccList). length vertices)"
    by (cases vertices rule: rev_cases) auto
qed

definition dfsGraphList :: "CapGraph \<Rightarrow> CapGraph \<Rightarrow> int list \<Rightarrow> int list \<Rightarrow> error + CapGraph list" where
  "dfsGraphList this graph vertices sccIDs =
     dfsGraphListLoop this graph vertices \<lparr>visited = {}, finished = [], sccNodeIDs = sccIDs\<rparr> []"

definition getSCCs :: "CapGraph \<Rightarrow> error + CapGraph list" where
  "getSCCs this =
     (let vertexStack = getVertexIDs this
      in case dfs this vertexStack [] of
           Inl e \<Rightarrow> Inl e
         | Inr finishedList \<Rightarrow>
             (case transposeGraph this of
                Inl e \<Rightarrow> Inl e
              | Inr transposedGraph \<Rightarrow> dfsGraphList this transposedGraph finishedList []))"

section \<open>Propagation simulator\<close>

text \<open>
  \<open>calculatePercent\<close> is \<open>Math.ceil(number * percentage)\<close>. The source
  computes in double precision with the literals \<open>0.1\<close> and \<open>0.2\<close>; the model
  takes the exact fractions. For vertex counts below \<open>2^50\<close> the rounded double
  product lies on the same side of every integer as the exact product, so the
  ceilings agree.
\<close>

definition calculatePercent :: "nat \<Rightarrow> rat \<Rightarrow> int" where
  "calculatePercent number percentage = \<lceil>of_nat number * percentage\<rceil>"

text \<open>
  The first loop of \<open>shareVideo\<close>, run for a trend setter: it counts the
  followers found in \<open>alreadyViewed\<close> and returns from \<open>shareVideo\<close> as soon
  as the count is above \<open>maxFollowerViews\<close>. \<open>gateExceeded\<close> is \<open>True\<close> when
  that early return is taken.
\<close>

fun gateExceeded :: "int set \<Rightarrow> int \<Rightarrow> int \<Rightarrow> int list \<Rightarrow> bool" where
  "gateExceeded alreadyViewed maxFollowerViews followersExposed [] = False"
| "gateExceeded alreadyViewed maxFollowerViews followersExposed (followerID # rest) =
     (if followerID \<in> alreadyViewed
      then (if followersExposed + 1 > maxFollowerViews then True
            else gateExceeded alreadyViewed maxFollowerViews (followersExposed + 1) rest)
      else gateExceeded alreadyViewed maxFollowerViews followersExposed rest)"

text \<open>
  The final \<open>forEach\<close> of \<open>shareVideo\<close>: a follower is pushed when
  \<open>toVisit.includes\<close> does not find it in the queue as it is at that moment, and
  every follower is added to \<open>alreadyViewed\<close>.
\<close>

fun enqueueFollowers :: "int list \<Rightarrow> int list \<times> int set \<Rightarrow> int list \<times> int set" where
  "enqueueFollowers [] (toVisit, alreadyViewed) = (toVisit, alreadyViewed)"
| "enqueueFollowers (followerID # rest) (toVisit, alreadyViewed) =
     enqueueFollowers rest
       (if followerID \<notin> set toVisit then toVisit @ [followerID] else toVisit,
        insert followerID alreadyViewed)"

definition shareVideo :: "CapGraph \<Rightarrow> int \<Rightarrow> int list \<Rightarrow> int set \<Rightarrow> error + int list \<times> int set" where
  "shareVideo this nodeID toVisit alreadyViewed =
     (case getVertex this nodeID of
        Inl e \<Rightarrow> Inl e
      | Inr node \<Rightarrow>
          (let alreadyViewed1 =
                 (if nodeID \<notin> alreadyViewed then insert nodeID alreadyViewed else alreadyViewed);
               nodeFollowers = getFollowers node;
               numNodeFollowers = length nodeFollowers
           in if getIsTrendSetter node
                 \<and> gateExceeded alreadyViewed1 (calculatePercent numNodeFollowers (2 / 10)) 0
                      nodeFollowers
              then Inr (toVisit, alreadyViewed1)
              else Inr (enqueueFollowers nodeFollowers (toVisit, alreadyViewed1))))"

text \<open>
  The gate in the words of the specification: scanning the follower list in
  order, the running count of followers in the viewed set exceeds the cap at
  some point.
\<close>

definition runningCountExceeds :: "int set \<Rightarrow> int \<Rightarrow> int list \<Rightarrow> bool" where
  "runningCountExceeds viewed cap F =
     (\<exists>i\<le>length F. cap < int (length (filter (\<lambda>f. f \<in> viewed) (take i F))))"

text \<open>
  \<open>addVertices\<close> copies into the snapshot graph every visited vertex it does
  not hold yet, with the neighbours the vertex has in \<open>this\<close> graph.
\<close>

fun addVertices :: "CapGraph \<Rightarrow> CapGraph \<Rightarrow> int list \<Rightarrow> error + CapGraph" where
  "addVertices this subGraph [] = Inr subGraph"
| "addVertices this subGraph (nodeID # nodes) =
     (if nodeID \<notin> set (getVertexIDs subGraph)
      then (let subGraph1 = addVertex subGraph nodeID
            in case getVertex this nodeID of
                 Inl e \<Rightarrow> Inl e
               | Inr origiNode \<Rightarrow>
                   (case getVertex subGraph1 nodeID of
                      Inl e \<Rightarrow> Inl e
                    | Inr newNode \<Rightarrow>
                        addVertices this
                          (AList.update nodeID
                             (fold addNeighbor (getNeighbors origiNode) newNode) subGraph1)
                          nodes))
      else addVertices this subGraph nodes)"

definition shouldContinueGenerating :: "nat \<Rightarrow> nat \<Rightarrow> nat \<Rightarrow> nat \<Rightarrow> bool" where
  "shouldContinueGenerating generationNum maxGenerationNum previousLength currentLength =
     (generationNum \<le> maxGenerationNum \<and> previousLength \<noteq> currentLength)"

text \<open>
  The local variables of \<open>startViralSharing\<close>. \<open>visited\<close> is a \<open>Set\<close> that
  \<open>addVertices\<close> iterates, so it is kept as the list of its elements in
  insertion order; \<open>alreadyViewed\<close> is only tested and extended. The depth-bounded
  variant queues pairs of a vertex and a depth, hence the parameter \<open>'q\<close>.
  \<open>v_generations\<close> collects what the run prints for each generation: the
  generation number and the vertices of the snapshot graph (the depth-bounded
  variant prints only their number). Two fields are not variables of the source
  but a trace of the run: \<open>v_dequeued\<close> lists the vertices taken from the queue
  by \<open>toVisit.shift()\<close>, \<open>v_shareCalls\<close> the vertices \<open>shareVideo\<close> was
  called for. Progress lines written to the console are left out.
\<close>

record 'q viral_state =
  v_toVisit :: "'q list"
  v_visited :: "int list"
  v_alreadyViewed :: "int set"
  v_n :: nat
  v_currentGraphLength :: nat
  v_previousGraphLength :: nat
  v_subGraph :: CapGraph
  v_generations :: "(nat \<times> int list) list"
  v_dequeued :: "int list"
  v_shareCalls :: "int list"

definition initialState :: "int \<Rightarrow> 'q list \<Rightarrow> 'q viral_state" where
  "initialState startingNodeID queue =
     \<lparr>v_toVisit = queue, v_visited = [], v_alreadyViewed = {startingNodeID},
      v_n = 1, v_currentGraphLength = 0, v_previousGraphLength = 0,
      v_subGraph = newCapGraph None, v_generations = [], v_dequeued = [], v_shareCalls = []\<rparr>"

text \<open>
  The generation accounting at the end of each round of the loop.
\<close>

definition generationStep :: "CapGraph \<Rightarrow> 'q viral_state \<Rightarrow> error option \<times> 'q viral_state" where
  "generationStep this st =
     (case addVertices this (v_subGraph st) (v_visited st) of
        Inl e \<Rightarrow> (Some e, st)
      | Inr sg \<Rightarrow>
          (let st1 = st\<lparr>v_subGraph := sg, v_currentGraphLength := length (getVertexIDs sg)\<rparr>
           in (None,
               if shouldContinueGenerating (v_n st1) 10 (v_previousGraphLength st1)
                    (v_currentGraphLength st1)
               then st1\<lparr>v_previousGraphLength := v_currentGraphLength st1,
                        v_generations := v_generations st1 @ [(v_n st1, getVertexIDs sg)],
                        v_n := v_n st1 + 1\<rparr>
               else st1)))"

text \<open>
  One round of the loop of \<open>startViralSharing\<close> after \<open>toVisit.shift()\<close>
  returned \<open>nodeID\<close>. The loop itself may in principle run forever, so it is a
  partial function: \<open>None\<close> stands for a run that does not end. A run that ends
  returns the error thrown, if any, and the final state.
\<close>

definition viralStep ::
  "CapGraph \<Rightarrow> int \<Rightarrow> int viral_state \<Rightarrow> error option \<times> int viral_state" where
  "viralStep this nodeID st =
     (if nodeID \<notin> set (v_visited st)
      then (case shareVideo this nodeID (v_toVisit st) (v_alreadyViewed st) of
              Inl e \<Rightarrow> (Some e, st\<lparr>v_shareCalls := v_shareCalls st @ [nodeID]\<rparr>)
            | Inr (toVisit, alreadyViewed) \<Rightarrow>
                generationStep this
                  (st\<lparr>v_toVisit := toVisit, v_alreadyViewed := alreadyViewed,
                      v_visited := v_visited st @ [nodeID],
                      v_shareCalls := v_shareCalls st @ [nodeID]\<rparr>))
      else generationStep this st)"

partial_function (option) viralLoop ::
  "CapGraph \<Rightarrow> int viral_state \<Rightarrow> (error option \<times> int viral_state) option" where
  "viralLoop this st =
     (case v_toVisit st of
        [] \<Rightarrow> Some (None, st)
      | nodeID # rest \<Rightarrow>
          (case viralStep this nodeID
                  (st\<lparr>v_toVisit := rest, v_dequeued := v_dequeued st @ [nodeID]\<rparr>) of
             (Some e, st') \<Rightarrow> Some (Some e, st')
           | (None, st') \<Rightarrow> viralLoop this st'))"

declare viralLoop.simps [code]

definition startViralSharing ::
  "CapGraph \<Rightarrow> int \<Rightarrow> (error option \<times> int viral_state) option" where
  "startViralSharing this startingNodeID =
     (case getVertex this startingNodeID of
        Inl e \<Rightarrow> Some (Some e, initialState startingNodeID [])
      | Inr startingNode \<Rightarrow>
          viralLoop this
            (initialState startingNodeID (startingNodeID # getFollowers startingNode)))"

text \<open>
  The depth-bounded variant: \<open>shareVideoWithDepth\<close> looks for the follower
  among the vertices of the queued pairs and queues it one level deeper; the
  loop skips a pair deeper than \<open>maxDepth\<close> and stops once more than 100000
  vertices are visited. \<open>maxDepth\<close> defaults to 3.
\<close>

fun enqueueFollowersWithDepth ::
  "int \<Rightarrow> int list \<Rightarrow> (int \<times> int) list \<times> int set \<Rightarrow> (int \<times> int) list \<times> int set" where
  "enqueueFollowersWithDepth currentDepth [] (toVisit, alreadyViewed) = (toVisit, alreadyViewed)"
| "enqueueFollowersWithDepth currentDepth (followerID # rest) (toVisit, alreadyViewed) =
     enqueueFollowersWithDepth currentDepth rest
       (if \<not> list_ex (\<lambda>item. fst item = followerID) toVisit
        then toVisit @ [(followerID, currentDepth + 1)] else toVisit,
        insert followerID alreadyViewed)"

definition shareVideoWithDepth ::
  "CapGraph \<Rightarrow> int \<Rightarrow> (int \<times> int) list \<Rightarrow> int set \<Rightarrow> int \<Rightarrow>
   error + (int \<times> int) list \<times> int set" where
  "shareVideoWithDepth this nodeID toVisit alreadyViewed currentDepth =
     (case getVertex this nodeID of
        Inl e \<Rightarrow> Inl e
      | Inr node \<Rightarrow>
          (let alreadyViewed1 =
                 (if nodeID \<notin> alreadyViewed then insert nodeID alreadyViewed else alreadyViewed);
               nodeFollowers = getFollowers node;
               numNodeFollowers = length nodeFollowers
           in if getIsTrendSetter node
                 \<and> gateExceeded alreadyViewed1 (calculatePercent numNodeFollowers (2 / 10)) 0
                      nodeFollowers
              then Inr (toVisit, alreadyViewed1)
              else Inr (enqueueFollowersWithDepth currentDepth nodeFollowers
                          (toVisit, alreadyViewed1))))"

definition limitStep ::
  "CapGraph \<Rightarrow> int \<Rightarrow> int \<Rightarrow> (int \<times> int) viral_state \<Rightarrow>
   error option \<times> (int \<times> int) viral_state" where
  "limitStep this nodeID depth st =
     (if nodeID \<notin> set (v_visited st)
      then (case shareVideoWithDepth this nodeID (v_toVisit st) (v_alreadyViewed st) depth of
              Inl e \<Rightarrow> (Some e, st\<lparr>v_shareCalls := v_shareCalls st @ [nodeID]\<rparr>)
            | Inr (toVisit, alreadyViewed) \<Rightarrow>
                generationStep this
                  (st\<lparr>v_toVisit := toVisit, v_alreadyViewed := alreadyViewed,
                      v_visited := v_visited st @ [nodeID],
                      v_shareCalls := v_shareCalls st @ [nodeID]\<rparr>))
      else generationStep this st)"

partial_function (option) limitLoop ::
  "CapGraph \<Rightarrow> int \<Rightarrow> (int \<times> int) viral_state \<Rightarrow>
   (error option \<times> (int \<times> int) viral_state) option" where
  "limitLoop this maxDepth st =
     (case v_toVisit st of
        [] \<Rightarrow> Some (None, st)
      | (nodeID, depth) # rest \<Rightarrow>
          (let st1 = st\<lparr>v_toVisit := rest, v_dequeued := v_dequeued st @ [nodeID]\<rparr>
           in if depth > maxDepth then limitLoop this maxDepth st1
              else (case limitStep this nodeID depth st1 of
                      (Some e, st') \<Rightarrow> Some (Some e, st')
                    | (None, st') \<Rightarrow>
                        if length (v_visited st') > 100000 then Some (None, st')
                        else limitLoop this maxDepth st')))"

declare limitLoop.simps [code]

definition startViralSharingWithLimit ::
  "CapGraph \<Rightarrow> int \<Rightarrow> int option \<Rightarrow> (error option \<times> (int \<times> int) viral_state) option" where
  "startViralSharingWithLimit this startingNodeID maxDepthArg =
     (let maxDepth = (case maxDepthArg of None \<Rightarrow> 3 | Some d \<Rightarrow> d)
      in case getVertex this startingNodeID of
           Inl e \<Rightarrow> Some (Some e, initialState startingNodeID [])
         | Inr startingNode \<Rightarrow>
             limitLoop this maxDepth
               (initialState startingNodeID
                  ((startingNodeID, 0) # map (\<lambda>f. (f, 1)) (getFollowers startingNode))))"

section \<open>Influence ranker\<close>

text \<open>
  \<open>buildNodeQueue\<close> collects, for every vertex of the component, the vertex
  object stored in \<open>this\<close> graph under the same identifier, and sorts the
  objects with the negated \<open>TrendSetterComparator\<close>: by descending number of
  neighbours, equal elements keeping their order (\<open>Array.prototype.sort\<close> is
  stable). An element of the queue is a reference to an object of \<open>this\<close>
  graph: the key of the object together with the object as it was collected.
  \<open>setIsTrendSetter(true)\<close> on a reference updates the entry of that key.
\<close>

definition getSCCList :: "CapGraph \<Rightarrow> error + CapGraph list" where
  "getSCCList this = getSCCs this"

fun collectNodes :: "CapGraph \<Rightarrow> int list \<Rightarrow> (int \<times> CapNode) list \<Rightarrow> error + (int \<times> CapNode) list" where
  "collectNodes this [] nodeQueue = Inr nodeQueue"
| "collectNodes this (nodeID # rest) nodeQueue =
     (case getVertex this nodeID of
        Inl e \<Rightarrow> Inl e
      | Inr node \<Rightarrow> collectNodes this rest (nodeQueue @ [(nodeID, node)]))"

definition compare :: "CapNode \<Rightarrow> CapNode \<Rightarrow> int" where
  "compare node1 node2 = int (getNumNeighbors node1) - int (getNumNeighbors node2)"

definition buildNodeQueue :: "CapGraph \<Rightarrow> nat \<Rightarrow> CapGraph \<Rightarrow> error + (int \<times> CapNode) list" where
  "buildNodeQueue this pqSize graph =
     (case collectNodes this (getVertexIDs graph) [] of
        Inl e \<Rightarrow> Inl e
      | Inr nodeQueue \<Rightarrow>
          Inr (sort_key (\<lambda>(nodeID, node). - int (getNumNeighbors node)) nodeQueue))"

text \<open>
  The loop \<open>for (i = 0; i < numTrendSetters; i++)\<close>: \<open>shift()\<close> on an empty
  queue returns \<open>undefined\<close> and nothing is marked.
\<close>

fun markTrendSetters :: "nat \<Rightarrow> (int \<times> CapNode) list \<Rightarrow> CapGraph \<Rightarrow> CapGraph" where
  "markTrendSetters 0 followersQueue this = this"
| "markTrendSetters (Suc i) [] this = markTrendSetters i [] this"
| "markTrendSetters (Suc i) ((nodeID, trendyNode) # followersQueue) this =
     markTrendSetters i followersQueue (AList.map_entry nodeID (setIsTrendSetter True) this)"

text \<open>
  The \<open>forEach\<close> over the components. An error thrown by a lookup ends it and
  leaves the marks set so far.
\<close>

fun rankComponents :: "CapGraph \<Rightarrow> CapGraph list \<Rightarrow> error option \<times> CapGraph" where
  "rankComponents this [] = (None, this)"
| "rankComponents this (scc # rest) =
     (let graphSize = length (getVertexIDs scc)
      in if graphSize > 2
         then (let numTrendSetters = calculatePercent graphSize (1 / 10)
               in case buildNodeQueue this graphSize scc of
                    Inl e \<Rightarrow> (Some e, this)
                  | Inr followersQueue \<Rightarrow>
                      rankComponents
                        (markTrendSetters (nat numTrendSetters) followersQueue this) rest)
         else rankComponents this rest)"

definition identifyTrendSetters :: "CapGraph \<Rightarrow> error option \<times> CapGraph" where
  "identifyTrendSetters this =
     (case getSCCList this of
        Inl e \<Rightarrow> (Some e, this)
      | Inr SCCList \<Rightarrow> rankComponents this SCCList)"

section \<open>Observations on a graph\<close>

text \<open>
  The trend setters of a graph, found as the entry point of the program lists
  them: the keys whose vertex has the flag set. \<open>structureOf\<close> is the graph
  without the flags: keys in order, with name, following and followers lists.
\<close>

definition isMarked :: "CapGraph \<Rightarrow> int \<Rightarrow> bool" where
  "isMarked g nodeID =
     (case getVertex g nodeID of Inl e \<Rightarrow> False | Inr node \<Rightarrow> getIsTrendSetter node)"

definition trendSetterIDs :: "CapGraph \<Rightarrow> int list" where
  "trendSetterIDs g = filter (isMarked g) (getVertexIDs g)"

definition structureOf :: "CapGraph \<Rightarrow> (int \<times> int \<times> int list \<times> int list) list" where
  "structureOf g = map (\<lambda>(k, node). (k, name node, neighbors node, followers node)) g"

section \<open>Paths and example graphs\<close>

text \<open>The edge relation of a graph: \<open>u\<close> follows \<open>v\<close>.\<close>

definition edges :: "CapGraph \<Rightarrow> (int \<times> int) set" where
  "edges g = {(u, v). \<exists>node. map_of g u = Some node \<and> v \<in> set (neighbors node)}"

text \<open>Vertices 1 and 2 with the single edge from 1 to 2.\<close>

definition chainGraph :: CapGraph where
  "chainGraph = snd (addEdge (addVertex (addVertex (newCapGraph None) 1) 2) 1 2)"

text \<open>Vertices 1 and 2 without edges.\<close>

definition isolatedGraph :: CapGraph where
  "isolatedGraph = addVertex (addVertex (newCapGraph None) 1) 2"

text \<open>Vertices 1 and 2 following each other.\<close>

definition cycleGraph :: CapGraph where
  "cycleGraph =
     snd (addEdge (snd (addEdge (addVertex (addVertex (newCapGraph None) 1) 2) 1 2)) 2 1)"

text \<open>
  Vertex 1 follows and is followed by 2 and 3, and is marked as a trend setter.
\<close>

definition starGraph :: CapGraph where
  "starGraph =
     [(1, \<lparr>name = 1, neighbors = [2, 3], followers = [2, 3], isTrendSetter = True\<rparr>),
      (2, \<lparr>name = 2, neighbors = [1], followers = [1], isTrendSetter = False\<rparr>),
      (3, \<lparr>name = 3, neighbors = [1], followers = [1], isTrendSetter = False\<rparr>)]"

text \<open>The cycle 1, 2, 3: each vertex follows the next, 3 follows 1.\<close>

definition triangleGraph :: CapGraph where
  "triangleGraph =
     snd (addEdge (snd (addEdge (snd (addEdge
       (addVertex (addVertex (addVertex (newCapGraph None) 1) 2) 3) 1 2)) 2 3)) 3 1)"


text \<open>The components \<open>getSCCs\<close> returns on these graphs.\<close>

definition isolatedComponents :: "CapGraph list" where
  "isolatedComponents =
     [[(2, \<lparr>name = 2, neighbors = [], followers = [], isTrendSetter = False\<rparr>)],
      [(1, \<lparr>name = 1, neighbors = [], followers = [], isTrendSetter = False\<rparr>)]]"

definition triangleComponent :: CapGraph where
  "triangleComponent =
     [(2, \<lparr>name = 2, neighbors = [3], followers = [], isTrendSetter = False\<rparr>),
      (3, \<lparr>name = 3, neighbors = [1], followers = [], isTrendSetter = False\<rparr>),
      (1, \<lparr>name = 1, neighbors = [2], followers = [], isTrendSetter = False\<rparr>)]"

section \<open>Measures and invariants of the propagation loop\<close>

text \<open>The number of vertices of the graph that the run has not visited yet.\<close>

definition unvisited :: "CapGraph \<Rightarrow> 'q viral_state \<Rightarrow> nat" where
  "unvisited this st = card (set (getVertexIDs this) - set (v_visited st))"

text \<open>
  The trace of \<open>shareVideo\<close> calls has no repetition and holds exactly the
  visited vertices.
\<close>

definition callsMatchVisited :: "'q viral_state \<Rightarrow> bool" where
  "callsMatchVisited st \<longleftrightarrow>
     distinct (v_shareCalls st) \<and> set (v_shareCalls st) = set (v_visited st)"

section \<open>Properties of a list of components\<close>

text \<open>No two components of the list share a vertex.\<close>

fun disjointKeys :: "CapGraph list \<Rightarrow> bool" where
  "disjointKeys [] = True"
| "disjointKeys (c # cs) =
     (list_all (\<lambda>d. set (getVertexIDs c) \<inter> set (getVertexIDs d) = {}) cs \<and> disjointKeys cs)"

text \<open>
  A component that holds none of the vertices \<open>seen\<close> so far: its vertices are
  vertices of \<open>this\<close> graph, it is not empty and, as a map, has every key once.
\<close>

definition componentFresh :: "CapGraph \<Rightarrow> int set \<Rightarrow> CapGraph \<Rightarrow> bool" where
  "componentFresh this seen c \<longleftrightarrow>
     set (getVertexIDs c) \<inter> seen = {} \<and> set (getVertexIDs c) \<subseteq> set (getVertexIDs this)
     \<and> distinct (getVertexIDs c) \<and> getVertexIDs c \<noteq> []"

text \<open>A component all of whose vertices are vertices of \<open>this\<close> graph.\<close>

definition componentIn :: "CapGraph \<Rightarrow> CapGraph \<Rightarrow> bool" where
  "componentIn this c \<longleftrightarrow>
     set (getVertexIDs c) \<subseteq> set (getVertexIDs this) \<and> distinct (getVertexIDs c)"

text \<open>
  The number of trend setters the ranker takes from a component: none for at
  most two vertices, else \<open>ceil(0.1 * size)\<close>.
\<close>

definition numTrendSettersOf :: "CapGraph \<Rightarrow> nat" where
  "numTrendSettersOf scc =
     (if length (getVertexIDs scc) > 2
      then nat (calculatePercent (length (getVertexIDs scc)) (1 / 10)) else 0)"

section \<open>Graphs without dangling identifiers\<close>

text \<open>
  Every identifier in a following list is a key of the graph. The lookups of
  the SCC decomposer throw on any other graph.
\<close>

definition neighborsAreKeys :: "CapGraph \<Rightarrow> bool" where
  "neighborsAreKeys g =
     list_all (\<lambda>(k, node). list_all (\<lambda>i. i \<in> set (getVertexIDs g)) (neighbors node)) g"

text \<open>The identifiers that occur in the following lists of a graph.\<close>

definition neighborIDs :: "CapGraph \<Rightarrow> int set" where
  "neighborIDs g = (\<Union>node \<in> snd ` set g. set (neighbors node))"

text \<open>
  Every identifier in a followers list is a key of the graph. \<open>addEdge\<close>
  extends a followers list only after both lookups succeeded, so every graph
  built with \<open>addVertex\<close>, \<open>addEdge\<close> and \<open>removeEdge\<close> is of this kind.
\<close>

definition followersAreKeys :: "CapGraph \<Rightarrow> bool" where
  "followersAreKeys g =
     list_all (\<lambda>(k, node). list_all (\<lambda>i. i \<in> set (getVertexIDs g)) (followers node)) g"

text \<open>
  The queued and the visited vertices of a run are vertices of the graph.
\<close>

definition queueInGraph :: "CapGraph \<Rightarrow> int list \<Rightarrow> 'q viral_state \<Rightarrow> bool" where
  "queueInGraph this queued st \<longleftrightarrow>
     set queued \<subseteq> set (getVertexIDs this) \<and> set (v_visited st) \<subseteq> set (getVertexIDs this)"

text \<open>The identifiers in the two lists of a vertex.\<close>

definition listIDs :: "CapNode \<Rightarrow> int set" where
  "listIDs node = set (neighbors node) \<union> set (followers node)"

section \<open>Edge mutation\<close>

lemma getVertex_unknown:
  "num \<notin> set (getVertexIDs g) \<Longrightarrow> getVertex g num = Inl (VertexNotFound num)"
  by (simp add: getVertex_def getVertexIDs_def map_of_eq_None_iff [THEN iffD2])

lemma getVertex_known:
  "getVertex g num = Inr vertex \<Longrightarrow> num \<in> set (getVertexIDs g)"
  using getVertex_unknown [of num g] by auto

lemma getVertex_of_key:
  "nodeID \<in> set (getVertexIDs g) \<Longrightarrow> \<exists>node. getVertex g nodeID = Inr node"
  by (cases "map_of g nodeID")
    (auto simp: getVertex_def getVertexIDs_def map_of_eq_None_iff)

lemma getVertexIDs_update [simp]:
  "set (getVertexIDs (AList.update k v g)) = insert k (set (getVertexIDs g))"
  using dom_update [of k v g] by (simp add: getVertexIDs_def)

lemma addEdge_unknown_from:
  "from \<notin> set (getVertexIDs g) \<Longrightarrow> addEdge g from to = (Some (VertexNotFound from), g)"
  by (simp add: addEdge_def getVertex_unknown)

lemma addEdge_unknown_to:
  assumes "to \<notin> set (getVertexIDs g)"
  shows "fst (addEdge g from to) \<noteq> None"
proof (cases "getVertex g from")
  case (Inl e)
  then show ?thesis by (simp add: addEdge_def)
next
  case (Inr fromNode)
  then have "from \<noteq> to"
    using assms getVertex_known by blast
  then have "to \<notin> set (getVertexIDs (AList.update from (addNeighbor to fromNode) g))"
    using assms by simp
  then show ?thesis
    using Inr by (simp add: addEdge_def getVertex_unknown)
qed

lemma set_update_subset: "set (AList.update k v al) \<subseteq> insert (k, v) (set al)"
  by (induction al) auto

lemma getVertex_followers:
  "followersAreKeys g \<Longrightarrow> getVertex g v = Inr node \<Longrightarrow> set (followers node) \<subseteq> set (getVertexIDs g)"
  unfolding followersAreKeys_def list_all_iff getVertex_def
  by (fastforce split: option.splits dest!: map_of_SomeD)

text \<open>
  Calls that return without an error keep the identifiers of all lists among
  the keys, and the followers lists hold keys only after every call, also one
  that throws.
\<close>

lemma idsAreKeys_iff:
  "idsAreKeys g \<longleftrightarrow> (\<forall>(k, node) \<in> set g. listIDs node \<subseteq> set (getVertexIDs g))"
  unfolding idsAreKeys_def list_all_iff listIDs_def by fastforce

lemma followersAreKeys_iff:
  "followersAreKeys g \<longleftrightarrow> (\<forall>(k, node) \<in> set g. set (followers node) \<subseteq> set (getVertexIDs g))"
  unfolding followersAreKeys_def list_all_iff by fastforce

lemma idsAreKeys_update:
  assumes "idsAreKeys g" "listIDs node' \<subseteq> insert k (set (getVertexIDs g))"
  shows "idsAreKeys (AList.update k node' g)"
  unfolding idsAreKeys_iff
proof clarify
  fix a b x
  assume ab: "(a, b) \<in> set (AList.update k node' g)" and x: "x \<in> listIDs b"
  from ab set_update_subset [of k node' g] have "(a, b) = (k, node') \<or> (a, b) \<in> set g"
    by blast
  then have "x \<in> insert k (set (getVertexIDs g))"
    using assms x unfolding idsAreKeys_iff by auto
  then show "x \<in> set (getVertexIDs (AList.update k node' g))"
    by simp
qed

lemma followersAreKeys_update:
  assumes "followersAreKeys g" "set (followers node') \<subseteq> insert k (set (getVertexIDs g))"
  shows "followersAreKeys (AList.update k node' g)"
  unfolding followersAreKeys_iff
proof clarify
  fix a b x
  assume ab: "(a, b) \<in> set (AList.update k node' g)" and x: "x \<in> set (followers b)"
  from ab set_update_subset [of k node' g] have "(a, b) = (k, node') \<or> (a, b) \<in> set g"
    by blast
  then have "x \<in> insert k (set (getVertexIDs g))"
    using assms x unfolding followersAreKeys_iff by auto
  then show "x \<in> set (getVertexIDs (AList.update k node' g))"
    by simp
qed

lemma getVertex_listIDs:
  "idsAreKeys g \<Longrightarrow> getVertex g k = Inr node \<Longrightarrow> listIDs node \<subseteq> set (getVertexIDs g)"
  unfolding idsAreKeys_iff getVertex_def
  by (fastforce split: option.splits dest!: map_of_SomeD)

lemma set_splice1: "set (splice1 xs i) \<subseteq> set xs"
  by (auto simp: splice1_def Let_def dest: in_set_takeD in_set_dropD)

lemma idsAreKeys_addVertex: "idsAreKeys g \<Longrightarrow> idsAreKeys (addVertex g k)"
  unfolding addVertex_def by (rule idsAreKeys_update) (simp_all add: listIDs_def newCapNode_def)

lemma idsAreKeys_addEdge:
  assumes "idsAreKeys g" "addEdge g from to = (None, g')"
  shows "idsAreKeys g'"
proof -
  from assms(2) obtain fromNode toNode where
    f: "getVertex g from = Inr fromNode"
    and t: "getVertex (AList.update from (addNeighbor to fromNode) g) to = Inr toNode"
    and g': "g' = AList.update to (addFollower from toNode)
                    (AList.update from (addNeighbor to fromNode) g)"
    by (auto simp: addEdge_def Let_def split: sum.splits)
  let ?g1 = "AList.update from (addNeighbor to fromNode) g"
  have tk: "to \<in> set (getVertexIDs ?g1)" using t by (rule getVertex_known)
  have fk: "from \<in> set (getVertexIDs g)" using f by (rule getVertex_known)
  have "listIDs (addNeighbor to fromNode) \<subseteq> insert to (listIDs fromNode)"
    by (auto simp: listIDs_def addNeighbor_def)
  with getVertex_listIDs [OF assms(1) f] tk fk
  have "listIDs (addNeighbor to fromNode) \<subseteq> insert from (set (getVertexIDs g))"
    by auto
  with assms(1) have g1: "idsAreKeys ?g1" by (rule idsAreKeys_update)
  have "listIDs (addFollower from toNode) \<subseteq> insert from (listIDs toNode)"
    by (auto simp: listIDs_def addFollower_def)
  with getVertex_listIDs [OF g1 t] fk
  have "listIDs (addFollower from toNode) \<subseteq> insert to (set (getVertexIDs ?g1))"
    by auto
  with g1 show ?thesis unfolding g' by (rule idsAreKeys_update)
qed

lemma idsAreKeys_removeEdge:
  assumes "idsAreKeys g"
  shows "idsAreKeys (snd (snd (removeEdge g from to)))"
proof (cases "getVertex g from")
  case (Inl e)
  with assms show ?thesis by (simp add: removeEdge_def)
next
  case (Inr fromNode)
  have "listIDs (snd (removeNeighbor to fromNode)) \<subseteq> listIDs fromNode"
    using set_splice1 [of "neighbors fromNode"]
    by (auto simp: listIDs_def removeNeighbor_def Let_def)
  with getVertex_listIDs [OF assms Inr]
  have "listIDs (snd (removeNeighbor to fromNode)) \<subseteq> insert from (set (getVertexIDs g))"
    by auto
  with assms have "idsAreKeys (AList.update from (snd (removeNeighbor to fromNode)) g)"
    by (rule idsAreKeys_update)
  with Inr show ?thesis
    by (simp add: removeEdge_def case_prod_unfold)
qed

lemma followersAreKeys_empty: "followersAreKeys (newCapGraph None)"
  by (simp add: followersAreKeys_def newCapGraph_def)

lemma followersAreKeys_addVertex: "followersAreKeys g \<Longrightarrow> followersAreKeys (addVertex g k)"
  unfolding addVertex_def by (rule followersAreKeys_update) (simp_all add: newCapNode_def)

lemma followersAreKeys_addEdge:
  assumes "followersAreKeys g"
  shows "followersAreKeys (snd (addEdge g from to))"
proof (cases "getVertex g from")
  case (Inl e)
  with assms show ?thesis by (simp add: addEdge_def)
next
  case (Inr fromNode)
  let ?g1 = "AList.update from (addNeighbor to fromNode) g"
  have fk: "from \<in> set (getVertexIDs g)" using Inr by (rule getVertex_known)
  have "set (followers (addNeighbor to fromNode)) = set (followers fromNode)"
    by (simp add: addNeighbor_def)
  with getVertex_followers [OF assms Inr]
  have "set (followers (addNeighbor to fromNode)) \<subseteq> insert from (set (getVertexIDs g))"
    by auto
  with assms have g1: "followersAreKeys ?g1" by (rule followersAreKeys_update)
  show ?thesis
  proof (cases "getVertex ?g1 to")
    case (Inl e)
    with Inr g1 show ?thesis by (simp add: addEdge_def)
  next
    case toNode: (Inr toNode)
    have "set (followers (addFollower from toNode)) \<subseteq> insert from (set (followers toNode))"
      by (auto simp: addFollower_def)
    with getVertex_followers [OF g1 toNode] fk
    have "set (followers (addFollower from toNode)) \<subseteq> insert to (set (getVertexIDs ?g1))"
      by auto
    with g1 have "followersAreKeys (AList.update to (addFollower from toNode) ?g1)"
      by (rule followersAreKeys_update)
    with Inr toNode show ?thesis by (simp add: addEdge_def)
  qed
qed

lemma followersAreKeys_removeEdge:
  assumes "followersAreKeys g"
  shows "followersAreKeys (snd (snd (removeEdge g from to)))"
proof (cases "getVertex g from")
  case (Inl e)
  with assms show ?thesis by (simp add: removeEdge_def)
next
  case (Inr fromNode)
  have "set (followers (snd (removeNeighbor to fromNode))) = set (followers fromNode)"
    by (simp add: removeNeighbor_def Let_def)
  with getVertex_followers [OF assms Inr]
  have "set (followers (snd (removeNeighbor to fromNode))) \<subseteq> insert from (set (getVertexIDs g))"
    by auto
  with assms have "followersAreKeys (AList.update from (snd (removeNeighbor to fromNode)) g)"
    by (rule followersAreKeys_update)
  with Inr show ?thesis
    by (simp add: removeEdge_def case_prod_unfold)
qed

text \<open>
  C4. \<open>addEdge\<close> appends \<open>to\<close> to the following list of \<open>from\<close> before it looks
  \<open>to\<close> up. On the graph with the single vertex 1, \<open>addEdge(1, 2)\<close> throws for the
  unknown vertex 2 and leaves 2 in the following list of vertex 1, although 2 is
  not a key of the graph.
\<close>

theorem addEdge_unknown_target_keeps_dangling_id:
  "addEdge (addVertex [] 1) 1 2 =
     (Some (VertexNotFound 2),
      [(1, \<lparr>name = 1, neighbors = [2], followers = [], isTrendSetter = False\<rparr>)])
   \<and> getVertexIDs (snd (addEdge (addVertex [] 1) 1 2)) = [1]
   \<and> \<not> idsAreKeys (snd (addEdge (addVertex [] 1) 1 2))"
  by (simp add: addEdge_def addVertex_def getVertex_def newCapNode_def addNeighbor_def
      getVertexIDs_def idsAreKeys_def)

text \<open>
  \<open>removeNeighbor\<close> on a neighbour that is present removes its first
  occurrence and writes nothing; on a neighbour that is absent it writes the
  diagnostic and removes the last element of the list.
\<close>

lemma indexOfFrom_eq:
  "indexOfFrom i xs x =
     (if x \<in> set xs then i + int (length (takeWhile (\<lambda>y. y \<noteq> x) xs)) else -1)"
  by (induction xs arbitrary: i) auto

lemma take_drop_remove1:
  "x \<in> set xs \<Longrightarrow>
   take (length (takeWhile (\<lambda>y. y \<noteq> x) xs)) xs
     @ drop (Suc (length (takeWhile (\<lambda>y. y \<noteq> x) xs))) xs = remove1 x xs"
  by (induction xs) auto

lemma length_takeWhile_present:
  "x \<in> set xs \<Longrightarrow> length (takeWhile (\<lambda>y. y \<noteq> x) xs) < length xs"
  by (induction xs) auto

lemma removeNeighbor_present:
  assumes "neighbor \<in> set (neighbors node)"
  shows "removeNeighbor neighbor node
           = ([], node\<lparr>neighbors := remove1 neighbor (neighbors node)\<rparr>)"
proof -
  let ?n = "length (takeWhile (\<lambda>y. y \<noteq> neighbor) (neighbors node))"
  have i: "indexOf (neighbors node) neighbor = int ?n"
    using assms by (simp add: indexOf_def indexOfFrom_eq)
  have "?n < length (neighbors node)"
    using assms by (rule length_takeWhile_present)
  then have "splice1 (neighbors node) (int ?n) = remove1 neighbor (neighbors node)"
    using take_drop_remove1 [OF assms] by (simp add: splice1_def Let_def min_def)
  with i show ?thesis
    by (simp add: removeNeighbor_def Let_def)
qed

lemma removeNeighbor_absent:
  assumes "neighbor \<notin> set (neighbors node)"
  shows "removeNeighbor neighbor node
           = ([couldntFindMessage], node\<lparr>neighbors := butlast (neighbors node)\<rparr>)"
proof -
  have i: "indexOf (neighbors node) neighbor = -1"
    using assms by (simp add: indexOf_def indexOfFrom_eq)
  have "splice1 (neighbors node) (-1) = butlast (neighbors node)"
    by (cases "neighbors node" rule: rev_cases) (simp_all add: splice1_def Let_def)
  with i show ?thesis
    by (simp add: removeNeighbor_def Let_def)
qed

text \<open>
  C5. \<open>removeNeighbor\<close> calls \<open>splice(index, 1)\<close> also when \<open>indexOf\<close> returned
  \<open>-1\<close>, and \<open>splice(-1, 1)\<close> deletes the last element. In the graph with vertices
  1, 2, 3 and the single edge from 1 to 2, \<open>removeEdge(1, 3)\<close> does not fail and
  writes the diagnostic, but it empties the following list of vertex 1.
\<close>

theorem removeEdge_absent_target_removes_last:
  "removeEdge (snd (addEdge (addVertex (addVertex (addVertex [] 1) 2) 3) 1 2)) 1 3 =
     (None, [couldntFindMessage],
      [(1, \<lparr>name = 1, neighbors = [], followers = [], isTrendSetter = False\<rparr>),
       (2, \<lparr>name = 2, neighbors = [], followers = [1], isTrendSetter = False\<rparr>),
       (3, \<lparr>name = 3, neighbors = [], followers = [], isTrendSetter = False\<rparr>)])
   \<and> map_of (snd (addEdge (addVertex (addVertex (addVertex [] 1) 2) 3) 1 2)) 1 =
       Some \<lparr>name = 1, neighbors = [2], followers = [], isTrendSetter = False\<rparr>"
  by (simp add: removeEdge_def removeNeighbor_def addEdge_def addVertex_def getVertex_def
      newCapNode_def addNeighbor_def addFollower_def indexOf_def splice1_def)

section \<open>The order of the second pass\<close>

text \<open>
  A vertex that finishes stands at the front of the finished list. The next
  root of the second pass is the last element of its list of vertices.
\<close>

lemma dfsVisit_prepends:
  "dfsVisit graph v st = Inr st' \<Longrightarrow> \<exists>rest. finished st' = v # rest"
  by (subst (asm) dfsVisit.simps) (auto split: sum.splits)

lemma dfsGraphListLoop_root_is_last:
  "v \<notin> visited st \<Longrightarrow>
   dfsGraphListLoop this graph (vertices @ [v]) st sccList =
     (case dfsVisit graph v st of
        Inl e \<Rightarrow> Inl e
      | Inr st' \<Rightarrow>
          (case copyNodes this (sccNodeIDs st') (newCapGraph (Some v)) of
             Inl e \<Rightarrow> Inl e
           | Inr scc \<Rightarrow>
               dfsGraphListLoop this graph
                 (filter (\<lambda>id. id \<notin> set (sccNodeIDs st')) vertices)
                 (st'\<lparr>sccNodeIDs := []\<rparr>) (sccList @ [scc])))"
  by (subst dfsGraphListLoop.simps) (simp add: Let_def split: sum.splits)

lemma chainGraph_eq:
  "chainGraph =
     [(1, \<lparr>name = 1, neighbors = [2], followers = [], isTrendSetter = False\<rparr>),
      (2, \<lparr>name = 2, neighbors = [], followers = [1], isTrendSetter = False\<rparr>)]"
  by (simp add: chainGraph_def addEdge_def addVertex_def getVertex_def newCapNode_def
      addNeighbor_def addFollower_def newCapGraph_def)

lemma chainGraph_from_2: "(2, x) \<in> (edges chainGraph)\<^sup>* \<Longrightarrow> x = 2"
  by (induction rule: rtrancl_induct) (auto simp: edges_def chainGraph_eq)

lemma chainGraph_edge: "(1, 2) \<in> edges chainGraph"
  by (simp add: edges_def chainGraph_eq)

lemma getSCCs_chainGraph:
  "getSCCs chainGraph =
     Inr [[(2, \<lparr>name = 2, neighbors = [], followers = [], isTrendSetter = False\<rparr>),
           (1, \<lparr>name = 1, neighbors = [2], followers = [], isTrendSetter = False\<rparr>)]]"
  by code_simp

text \<open>
  C1. On the graph with vertices 1 and 2 and the single edge from 1 to 2,
  \<open>getSCCs\<close> returns one component holding both vertices, although no path leads
  from 2 back to 1: the two vertices are not mutually reachable.
\<close>

theorem getSCCs_joins_unreachable_vertices:
  "getSCCs chainGraph =
     Inr [[(2, \<lparr>name = 2, neighbors = [], followers = [], isTrendSetter = False\<rparr>),
           (1, \<lparr>name = 1, neighbors = [2], followers = [], isTrendSetter = False\<rparr>)]]
   \<and> (1, 2) \<in> (edges chainGraph)\<^sup>*
   \<and> (2, 1) \<notin> (edges chainGraph)\<^sup>*"
  using getSCCs_chainGraph chainGraph_from_2 [of 1] chainGraph_edge by auto

lemma dfs_isolatedGraph:
  "dfs isolatedGraph (getVertexIDs isolatedGraph) [] = Inr [1, 2]"
  by code_simp

lemma getSCCs_isolatedGraph:
  "getSCCs isolatedGraph =
     Inr [[(2, \<lparr>name = 2, neighbors = [], followers = [], isTrendSetter = False\<rparr>)],
          [(1, \<lparr>name = 1, neighbors = [], followers = [], isTrendSetter = False\<rparr>)]]"
  by code_simp

text \<open>
  C2. On the graph with the isolated vertices 1 and 2 the first pass returns the
  finished list \<open>[1, 2]\<close>: vertex 2 is popped and finished first, vertex 1 is
  finished last and stands first in the list. The second pass pops its roots
  from the end of that list: the first component returned is the one of vertex
  2, the earliest finished vertex, and the component of vertex 1 comes second.
\<close>

theorem second_pass_takes_earliest_finished_first:
  "dfs isolatedGraph (getVertexIDs isolatedGraph) [] = Inr [1, 2]
   \<and> getSCCs isolatedGraph =
       Inr [[(2, \<lparr>name = 2, neighbors = [], followers = [], isTrendSetter = False\<rparr>)],
            [(1, \<lparr>name = 1, neighbors = [], followers = [], isTrendSetter = False\<rparr>)]]"
  using dfs_isolatedGraph getSCCs_isolatedGraph by simp

section \<open>The components partition the vertices\<close>

declare dfsLoop.simps [simp del] dfsGraphListLoop.simps [simp del]

lemma dfs_sets:
  "dfsVisit g v st = Inr st' \<Longrightarrow>
     visited st \<subseteq> visited st' \<and> v \<in> visited st'
     \<and> set (sccNodeIDs st') = set (sccNodeIDs st) \<union> insert v (visited st' - visited st)
     \<and> set (finished st') = set (finished st) \<union> insert v (visited st' - visited st)"
  "dfsForEach g ns st = Inr st' \<Longrightarrow>
     visited st \<subseteq> visited st'
     \<and> set (sccNodeIDs st') = set (sccNodeIDs st) \<union> (visited st' - visited st)
     \<and> set (finished st') = set (finished st) \<union> (visited st' - visited st)"
proof (induction g v st and g ns st arbitrary: st' and st' rule: dfsVisit_dfsForEach.induct)
  case (1 graph v st)
  from 1(2) obtain vNode st1 where a: "getVertex graph v = Inr vNode"
    and b: "dfsForEach graph (getNeighbors vNode) (st\<lparr>visited := insert v (visited st)\<rparr>) = Inr st1"
    and c: "st' = st1\<lparr>finished := v # finished st1, sccNodeIDs := sccNodeIDs st1 @ [v]\<rparr>"
    by (auto split: sum.splits)
  from 1(1) [OF a b] c show ?case by auto
next
  case (2 graph st)
  then show ?case by simp
next
  case (3 graph n ns st)
  show ?case
  proof (cases "n \<in> visited st")
    case True
    with 3(3) [OF _ ] 3(4) show ?thesis by simp
  next
    case False
    with 3(4) obtain st1 where a: "dfsVisit graph n st = Inr st1"
      and b: "dfsForEach graph ns st1 = Inr st'"
      by (auto split: sum.splits)
    from 3(1) [OF False a] 3(2) [OF False a b] False show ?thesis by auto
  qed
qed

lemma dfsLoop_finished:
  "dfsLoop g vs st = Inr st' \<Longrightarrow> visited st \<subseteq> set (finished st) \<Longrightarrow>
     set vs \<union> set (finished st) \<subseteq> set (finished st') \<and> visited st' \<subseteq> set (finished st')"
proof (induction g vs st rule: dfsLoop.induct)
  case (1 graph vertices st)
  show ?case
  proof (cases "vertices = []")
    case True
    with 1(3,4) show ?thesis by (simp add: dfsLoop.simps)
  next
    case ne: False
    then have vs: "set vertices = insert (last vertices) (set (butlast vertices))"
      by (cases vertices rule: rev_cases) auto
    show ?thesis
    proof (cases "last vertices \<in> visited st")
      case True
      with ne 1(3) have "dfsLoop graph (butlast vertices) st = Inr st'"
        by (simp add: dfsLoop.simps [of graph vertices] Let_def)
      from 1(2) [OF ne refl refl _ this 1(4)] True 1(4) vs show ?thesis by auto
    next
      case False
      with ne 1(3) obtain st1 where a: "dfsVisit graph (last vertices) st = Inr st1"
        and b: "dfsLoop graph (butlast vertices) st1 = Inr st'"
        by (auto simp: dfsLoop.simps [of graph vertices] Let_def split: sum.splits)
      from dfs_sets(1) [OF a] 1(4)
      have c: "visited st1 \<subseteq> set (finished st1)" "last vertices \<in> set (finished st1)"
        "set (finished st) \<subseteq> set (finished st1)"
        by auto
      from 1(1) [OF ne refl refl False a b c(1)] c(2,3) vs show ?thesis by auto
    qed
  qed
qed

lemma dfs_covers: "dfs g vs ids = Inr fin \<Longrightarrow> set vs \<subseteq> set fin"
  using dfsLoop_finished [of g vs "\<lparr>visited = {}, finished = [], sccNodeIDs = ids\<rparr>"]
  by (auto simp: dfs_def split: sum.splits)

lemma distinct_getVertexIDs_update:
  "distinct (getVertexIDs (AList.update k v g)) = distinct (getVertexIDs g)"
  by (auto simp: getVertexIDs_def update_keys)

lemma copyNodes_keys:
  "copyNodes this ids scc = Inr scc' \<Longrightarrow>
     set (getVertexIDs scc') = set (getVertexIDs scc) \<union> set ids
     \<and> set ids \<subseteq> set (getVertexIDs this)
     \<and> distinct (getVertexIDs scc') = distinct (getVertexIDs scc)"
proof (induction this ids scc rule: copyNodes.induct)
  case (1 this scc)
  then show ?case by simp
next
  case (2 this nodeID rest scc)
  from 2(2) obtain origiNode sccNode where a: "getVertex this nodeID = Inr origiNode"
    and b: "getVertex (addVertex scc nodeID) nodeID = Inr sccNode"
    and c: "copyNodes this rest
              (AList.update nodeID (fold addNeighbor (getNeighbors origiNode) sccNode)
                 (addVertex scc nodeID)) = Inr scc'"
    by (auto simp: Let_def split: sum.splits)
  from 2(1) [OF refl a b c] getVertex_known [OF a] show ?case
    by (auto simp: addVertex_def distinct_getVertexIDs_update)
qed


lemma componentFresh_mono:
  "componentFresh this seen' c \<Longrightarrow> seen \<subseteq> seen' \<Longrightarrow> componentFresh this seen c"
  by (auto simp: componentFresh_def)

lemma dfsGraphListLoop_partition:
  "dfsGraphListLoop this graph vertices st sccList = Inr result \<Longrightarrow>
   sccNodeIDs st = [] \<Longrightarrow> set vertices \<inter> visited st = {} \<Longrightarrow>
   \<exists>new. result = sccList @ new \<and> disjointKeys new
     \<and> list_all (componentFresh this (visited st)) new
     \<and> set vertices \<subseteq> (\<Union>c \<in> set new. set (getVertexIDs c))"
proof (induction this graph vertices st sccList rule: dfsGraphListLoop.induct)
  case (1 this graph vertices st sccList)
  show ?case
  proof (cases "vertices = []")
    case True
    with 1(2) show ?thesis by (simp add: dfsGraphListLoop.simps)
  next
    case ne: False
    let ?v = "last vertices"
    let ?vs = "butlast vertices"
    have vs: "set vertices = insert ?v (set ?vs)"
      using ne by (cases vertices rule: rev_cases) auto
    with 1(4) have unv: "?v \<notin> visited st" by auto
    from 1(2) ne unv obtain st1 scc where
      a: "dfsVisit graph ?v st = Inr st1"
      and b: "copyNodes this (sccNodeIDs st1) (newCapGraph (Some ?v)) = Inr scc"
      and c: "dfsGraphListLoop this graph
                (filter (\<lambda>id. id \<notin> set (sccNodeIDs st1)) ?vs)
                (st1\<lparr>sccNodeIDs := []\<rparr>) (sccList @ [scc]) = Inr result"
      by (auto simp: dfsGraphListLoop.simps [of this graph vertices] Let_def split: sum.splits)
    let ?vs2 = "filter (\<lambda>id. id \<notin> set (sccNodeIDs st1)) ?vs"
    from dfs_sets(1) [OF a] 1(3) unv
    have mono: "visited st \<subseteq> visited st1"
      and ids: "set (sccNodeIDs st1) = visited st1 - visited st"
      and vin: "?v \<in> set (sccNodeIDs st1)"
      by auto
    have r: "(if ?v \<notin> visited st
              then case dfsVisit graph ?v st of Inl e \<Rightarrow> Inl e
                   | Inr st' \<Rightarrow> Inr (filter (\<lambda>id. id \<notin> set (sccNodeIDs st')) ?vs, st')
              else Inr (?vs, st)) = Inr (?vs2, st1)"
      using unv a by simp
    have disj2: "set ?vs2 \<inter> visited (st1\<lparr>sccNodeIDs := []\<rparr>) = {}"
      using 1(4) vs ids by auto
    from 1(1) [OF ne refl refl r refl b c _ disj2]
    obtain new where new: "result = (sccList @ [scc]) @ new" "disjointKeys new"
      "list_all (componentFresh this (visited st1)) new"
      "set ?vs2 \<subseteq> (\<Union>c \<in> set new. set (getVertexIDs c))"
      by auto
    from copyNodes_keys [OF b] vin
    have keys: "set (getVertexIDs scc) = set (sccNodeIDs st1)"
      and sub: "set (sccNodeIDs st1) \<subseteq> set (getVertexIDs this)"
      and dist: "distinct (getVertexIDs scc)"
      by (auto simp: newCapGraph_def addVertex_def getVertexIDs_def)
    have fresh: "componentFresh this (visited st) scc"
      using keys sub dist ids vin by (auto simp: componentFresh_def)
    have "list_all (\<lambda>d. set (getVertexIDs scc) \<inter> set (getVertexIDs d) = {}) new"
      using new(3) keys ids by (auto simp: list_all_iff componentFresh_def)
    then have d: "disjointKeys (scc # new)"
      using new(2) by simp
    have f: "list_all (componentFresh this (visited st)) (scc # new)"
      using fresh new(3) mono by (auto simp: list_all_iff intro: componentFresh_mono)
    have cov: "set vertices \<subseteq> (\<Union>c \<in> set (scc # new). set (getVertexIDs c))"
    proof
      fix x assume x: "x \<in> set vertices"
      show "x \<in> (\<Union>c \<in> set (scc # new). set (getVertexIDs c))"
      proof (cases "x \<in> set (sccNodeIDs st1)")
        case True
        with keys show ?thesis by simp
      next
        case False
        with x vs vin have "x \<in> set ?vs2" by auto
        with new(4) show ?thesis by auto
      qed
    qed
    from new(1) d f cov show ?thesis
      by (intro exI [of _ "scc # new"]) simp
  qed
qed

lemma disjointKeys_unique:
  "disjointKeys cs \<Longrightarrow> i < length cs \<Longrightarrow> j < length cs \<Longrightarrow>
   v \<in> set (getVertexIDs (cs ! i)) \<Longrightarrow> v \<in> set (getVertexIDs (cs ! j)) \<Longrightarrow> i = j"
proof (induction cs arbitrary: i j)
  case Nil
  then show ?case by simp
next
  case (Cons c cs)
  show ?case
  proof (cases i)
    case i0: 0
    show ?thesis
    proof (cases j)
      case 0
      with i0 show ?thesis by simp
    next
      case (Suc j')
      with Cons.prems i0 have False
        by (auto simp: list_all_iff dest: nth_mem)
      then show ?thesis ..
    qed
  next
    case (Suc i')
    show ?thesis
    proof (cases j)
      case 0
      with Cons.prems Suc have False
        by (auto simp: list_all_iff dest: nth_mem)
      then show ?thesis ..
    next
      case j: (Suc j')
      with Cons.prems Suc Cons.IH [of i' j'] show ?thesis by simp
    qed
  qed
qed

lemma getSCCs_components:
  assumes "getSCCs this = Inr comps"
  shows "disjointKeys comps \<and> list_all (componentFresh this {}) comps
         \<and> (\<Union>c \<in> set comps. set (getVertexIDs c)) = set (getVertexIDs this)"
proof -
  from assms obtain fin tg where a: "dfs this (getVertexIDs this) [] = Inr fin"
    and b: "dfsGraphList this tg fin [] = Inr comps"
    by (auto simp: getSCCs_def Let_def split: sum.splits)
  from b have "dfsGraphListLoop this tg fin \<lparr>visited = {}, finished = [], sccNodeIDs = []\<rparr> []
                 = Inr comps"
    by (simp add: dfsGraphList_def)
  from dfsGraphListLoop_partition [OF this]
  have c: "disjointKeys comps" "list_all (componentFresh this {}) comps"
    "set fin \<subseteq> (\<Union>c \<in> set comps. set (getVertexIDs c))"
    by auto
  from c(2) have "(\<Union>c \<in> set comps. set (getVertexIDs c)) \<subseteq> set (getVertexIDs this)"
    by (auto simp: list_all_iff componentFresh_def)
  with dfs_covers [OF a] c show ?thesis by auto
qed

lemma getSCCs_partition:
  assumes "getSCCs this = Inr comps"
  shows "(\<Union>c \<in> set comps. set (getVertexIDs c)) = set (getVertexIDs this)
         \<and> (\<forall>v \<in> set (getVertexIDs this).
               \<exists>!i. i < length comps \<and> v \<in> set (getVertexIDs (comps ! i)))"
proof -
  from getSCCs_components [OF assms]
  have d: "disjointKeys comps"
    and u: "(\<Union>c \<in> set comps. set (getVertexIDs c)) = set (getVertexIDs this)"
    by simp_all
  have "\<exists>!i. i < length comps \<and> v \<in> set (getVertexIDs (comps ! i))"
    if "v \<in> set (getVertexIDs this)" for v
  proof -
    from that u obtain c where "c \<in> set comps" "v \<in> set (getVertexIDs c)" by blast
    then obtain i where "i < length comps" "v \<in> set (getVertexIDs (comps ! i))"
      by (auto simp: in_set_conv_nth)
    then show ?thesis
      using disjointKeys_unique [OF d] by (intro ex1I [of _ i]) auto
  qed
  with u show ?thesis by blast
qed


section \<open>The decomposer returns on graphs without dangling identifiers\<close>

lemma neighborsAreKeys_iff: "neighborsAreKeys g \<longleftrightarrow> neighborIDs g \<subseteq> set (getVertexIDs g)"
  unfolding neighborsAreKeys_def neighborIDs_def list_all_iff by fastforce

lemma getVertex_neighborIDs:
  "getVertex g v = Inr vNode \<Longrightarrow> set (getNeighbors vNode) \<subseteq> neighborIDs g"
  by (auto simp: getVertex_def neighborIDs_def getNeighbors_def split: option.splits
      dest!: map_of_SomeD intro!: bexI [of _ "(v, vNode)"])

lemma dfs_succeeds:
  "neighborsAreKeys g \<Longrightarrow> v \<in> set (getVertexIDs g) \<Longrightarrow> \<exists>st'. dfsVisit g v st = Inr st'"
  "neighborsAreKeys g \<Longrightarrow> set ns \<subseteq> set (getVertexIDs g) \<Longrightarrow> \<exists>st'. dfsForEach g ns st = Inr st'"
proof (induction g v st and g ns st rule: dfsVisit_dfsForEach.induct)
  case (1 graph v st)
  from getVertex_of_key [OF 1(3)] obtain vNode where a: "getVertex graph v = Inr vNode" ..
  from getVertex_neighborIDs [OF a] 1(2)
  have "set (getNeighbors vNode) \<subseteq> set (getVertexIDs graph)"
    by (auto simp: neighborsAreKeys_iff)
  from 1(1) [OF a 1(2) this] a show ?case by auto
next
  case (2 graph st)
  then show ?case by simp
next
  case (3 graph n ns st)
  show ?case
  proof (cases "n \<in> visited st")
    case True
    with 3(3) [OF _ 3(4)] 3(5) show ?thesis by simp
  next
    case False
    from 3(1) [OF False 3(4)] 3(5) obtain st1 where a: "dfsVisit graph n st = Inr st1" by auto
    from 3(2) [OF False a 3(4)] 3(5) a False show ?thesis by auto
  qed
qed

lemma dfs_new_keys:
  "dfsVisit g v st = Inr st' \<Longrightarrow>
     v \<in> set (getVertexIDs g) \<and> visited st' - visited st \<subseteq> set (getVertexIDs g)"
  "dfsForEach g ns st = Inr st' \<Longrightarrow> visited st' - visited st \<subseteq> set (getVertexIDs g)"
proof (induction g v st and g ns st arbitrary: st' and st' rule: dfsVisit_dfsForEach.induct)
  case (1 graph v st)
  from 1(2) obtain vNode st1 where a: "getVertex graph v = Inr vNode"
    and b: "dfsForEach graph (getNeighbors vNode) (st\<lparr>visited := insert v (visited st)\<rparr>) = Inr st1"
    and c: "st' = st1\<lparr>finished := v # finished st1, sccNodeIDs := sccNodeIDs st1 @ [v]\<rparr>"
    by (auto split: sum.splits)
  from 1(1) [OF a b] c getVertex_known [OF a] show ?case by auto
next
  case (2 graph st)
  then show ?case by simp
next
  case (3 graph n ns st)
  show ?case
  proof (cases "n \<in> visited st")
    case True
    with 3(3) 3(4) show ?thesis by simp
  next
    case False
    with 3(4) obtain st1 where a: "dfsVisit graph n st = Inr st1"
      and b: "dfsForEach graph ns st1 = Inr st'"
      by (auto split: sum.splits)
    from 3(1) [OF False a] 3(2) [OF False a b] show ?thesis by auto
  qed
qed

lemma dfsLoop_succeeds:
  "neighborsAreKeys g \<Longrightarrow> set vs \<subseteq> set (getVertexIDs g) \<Longrightarrow> \<exists>st'. dfsLoop g vs st = Inr st'"
proof (induction g vs st rule: dfsLoop.induct)
  case (1 graph vertices st)
  show ?case
  proof (cases "vertices = []")
    case True
    then show ?thesis by (simp add: dfsLoop.simps)
  next
    case ne: False
    then have vs: "set vertices = insert (last vertices) (set (butlast vertices))"
      by (cases vertices rule: rev_cases) auto
    with 1(4) have sub: "set (butlast vertices) \<subseteq> set (getVertexIDs graph)"
      and lin: "last vertices \<in> set (getVertexIDs graph)" by auto
    show ?thesis
    proof (cases "last vertices \<in> visited st")
      case True
      with 1(2) [OF ne refl refl _ 1(3) sub] ne show ?thesis
        by (simp add: dfsLoop.simps [of graph vertices] Let_def)
    next
      case False
      from dfs_succeeds(1) [OF 1(3) lin] obtain st1 where
        a: "dfsVisit graph (last vertices) st = Inr st1" by blast
      from 1(1) [OF ne refl refl False a 1(3) sub] ne False a show ?thesis
        by (simp add: dfsLoop.simps [of graph vertices] Let_def)
    qed
  qed
qed

lemma dfsLoop_finished_keys:
  "dfsLoop g vs st = Inr st' \<Longrightarrow> visited st \<subseteq> set (finished st) \<Longrightarrow>
     set (finished st) \<subseteq> set (getVertexIDs g) \<Longrightarrow> set (finished st') \<subseteq> set (getVertexIDs g)"
proof (induction g vs st rule: dfsLoop.induct)
  case (1 graph vertices st)
  show ?case
  proof (cases "vertices = []")
    case True
    with 1(3,5) show ?thesis by (simp add: dfsLoop.simps)
  next
    case ne: False
    show ?thesis
    proof (cases "last vertices \<in> visited st")
      case True
      with ne 1(3) have "dfsLoop graph (butlast vertices) st = Inr st'"
        by (simp add: dfsLoop.simps [of graph vertices] Let_def)
      from 1(2) [OF ne refl refl _ this 1(4) 1(5)] True show ?thesis by simp
    next
      case False
      with ne 1(3) obtain st1 where a: "dfsVisit graph (last vertices) st = Inr st1"
        and b: "dfsLoop graph (butlast vertices) st1 = Inr st'"
        by (auto simp: dfsLoop.simps [of graph vertices] Let_def split: sum.splits)
      from dfs_sets(1) [OF a] dfs_new_keys(1) [OF a] 1(4) 1(5)
      have c: "visited st1 \<subseteq> set (finished st1)"
        "set (finished st1) \<subseteq> set (getVertexIDs graph)"
        by auto
      from 1(1) [OF ne refl refl False a b c] show ?thesis .
    qed
  qed
qed

lemma dfs_returns:
  "neighborsAreKeys g \<Longrightarrow> set vs \<subseteq> set (getVertexIDs g) \<Longrightarrow>
   \<exists>fin. dfs g vs ids = Inr fin \<and> set fin \<subseteq> set (getVertexIDs g)"
proof -
  assume a: "neighborsAreKeys g" "set vs \<subseteq> set (getVertexIDs g)"
  let ?st = "\<lparr>visited = {}, finished = [], sccNodeIDs = ids\<rparr>"
  from dfsLoop_succeeds [OF a, of ?st] obtain st' where l: "dfsLoop g vs ?st = Inr st'" by blast
  from dfsLoop_finished_keys [OF l] have "set (finished st') \<subseteq> set (getVertexIDs g)" by simp
  with l show ?thesis by (simp add: dfs_def)
qed


lemma neighborIDs_update:
  "neighborIDs (AList.update k node' g) \<subseteq> neighborIDs g \<union> set (neighbors node')"
  using set_update_subset [of k node' g] by (fastforce simp: neighborIDs_def)

lemma neighborIDs_addVertex: "neighborIDs (addVertex g k) \<subseteq> neighborIDs g"
  using neighborIDs_update [of k "newCapNode k" g] by (simp add: addVertex_def newCapNode_def)

lemma transposeNeighbors_returns:
  "\<exists>tg'. transposeNeighbors v ns tg = Inr tg'
     \<and> set (getVertexIDs tg') = set (getVertexIDs tg) \<union> set ns
     \<and> neighborIDs tg' \<subseteq> neighborIDs tg \<union> {v}"
proof (induction ns arbitrary: tg)
  case Nil
  then show ?case by auto
next
  case (Cons neighbor rest)
  define tg1 where "tg1 = (if neighbor \<notin> set (getVertexIDs tg) then addVertex tg neighbor else tg)"
  have k1: "set (getVertexIDs tg1) = insert neighbor (set (getVertexIDs tg))"
    by (auto simp: tg1_def addVertex_def)
  have n1: "neighborIDs tg1 \<subseteq> neighborIDs tg"
    using neighborIDs_addVertex [of tg neighbor] by (auto simp: tg1_def)
  from k1 getVertex_of_key [of neighbor tg1] obtain tn where
    tn: "getVertex tg1 neighbor = Inr tn" by auto
  define tg2 where "tg2 = AList.update neighbor (addNeighbor v tn) tg1"
  have k2: "set (getVertexIDs tg2) = insert neighbor (set (getVertexIDs tg))"
    using k1 by (simp add: tg2_def)
  have "neighborIDs tg2 \<subseteq> neighborIDs tg1 \<union> set (neighbors (addNeighbor v tn))"
    unfolding tg2_def by (rule neighborIDs_update)
  moreover have "set (neighbors (addNeighbor v tn)) = set (neighbors tn) \<union> {v}"
    by (simp add: addNeighbor_def)
  moreover have "set (neighbors tn) \<subseteq> neighborIDs tg1"
    using getVertex_neighborIDs [OF tn] by (simp add: getNeighbors_def)
  ultimately have n2: "neighborIDs tg2 \<subseteq> neighborIDs tg \<union> {v}"
    using n1 by blast
  from Cons.IH [of tg2] obtain tg' where
    r: "transposeNeighbors v rest tg2 = Inr tg'"
    "set (getVertexIDs tg') = set (getVertexIDs tg2) \<union> set rest"
    "neighborIDs tg' \<subseteq> neighborIDs tg2 \<union> {v}"
    by blast
  have "transposeNeighbors v (neighbor # rest) tg = Inr tg'"
    using tn r(1) by (simp add: Let_def tg1_def tg2_def)
  moreover have "set (getVertexIDs tg') = set (getVertexIDs tg) \<union> set (neighbor # rest)"
    using r(2) k2 by auto
  moreover have "neighborIDs tg' \<subseteq> neighborIDs tg \<union> {v}"
    using r(3) n2 by auto
  ultimately show ?case by blast
qed

lemma transposeVertices_returns:
  "set vs \<subseteq> set (getVertexIDs graph) \<Longrightarrow>
   \<exists>tg'. transposeVertices graph vs tg = Inr tg'
     \<and> set (getVertexIDs tg) \<union> set vs \<subseteq> set (getVertexIDs tg')
     \<and> set (getVertexIDs tg') \<subseteq> set (getVertexIDs tg) \<union> set vs \<union> neighborIDs graph
     \<and> neighborIDs tg' \<subseteq> neighborIDs tg \<union> set vs"
proof (induction vs arbitrary: tg)
  case Nil
  then show ?case by simp
next
  case (Cons v rest)
  from Cons.prems getVertex_of_key [of v graph] obtain origiNode where
    o: "getVertex graph v = Inr origiNode" by auto
  define tg1 where "tg1 = (if v \<notin> set (getVertexIDs tg) then addVertex tg v else tg)"
  have k1: "set (getVertexIDs tg1) = insert v (set (getVertexIDs tg))"
    by (auto simp: tg1_def addVertex_def)
  have n1: "neighborIDs tg1 \<subseteq> neighborIDs tg"
    using neighborIDs_addVertex [of tg v] by (auto simp: tg1_def)
  from transposeNeighbors_returns [of v "getNeighbors origiNode" tg1] obtain tg2 where
    t2: "transposeNeighbors v (getNeighbors origiNode) tg1 = Inr tg2"
    "set (getVertexIDs tg2) = set (getVertexIDs tg1) \<union> set (getNeighbors origiNode)"
    "neighborIDs tg2 \<subseteq> neighborIDs tg1 \<union> {v}"
    by blast
  from Cons.prems have "set rest \<subseteq> set (getVertexIDs graph)" by simp
  from Cons.IH [OF this, of tg2] obtain tg' where
    r: "transposeVertices graph rest tg2 = Inr tg'"
    "set (getVertexIDs tg2) \<union> set rest \<subseteq> set (getVertexIDs tg')"
    "set (getVertexIDs tg') \<subseteq> set (getVertexIDs tg2) \<union> set rest \<union> neighborIDs graph"
    "neighborIDs tg' \<subseteq> neighborIDs tg2 \<union> set rest"
    by blast
  have "transposeVertices graph (v # rest) tg = Inr tg'"
    using o t2(1) r(1) by (simp add: Let_def tg1_def)
  moreover have "set (getVertexIDs tg) \<union> set (v # rest) \<subseteq> set (getVertexIDs tg')"
    using r(2) t2(2) k1 by auto
  moreover have "set (getVertexIDs tg')
      \<subseteq> set (getVertexIDs tg) \<union> set (v # rest) \<union> neighborIDs graph"
    using r(3) t2(2) k1 getVertex_neighborIDs [OF o] by auto
  moreover have "neighborIDs tg' \<subseteq> neighborIDs tg \<union> set (v # rest)"
    using r(4) t2(3) n1 by auto
  ultimately show ?case by blast
qed

lemma transposeGraph_returns:
  assumes "neighborsAreKeys g"
  shows "\<exists>tg. transposeGraph g = Inr tg \<and> set (getVertexIDs tg) = set (getVertexIDs g)
            \<and> neighborsAreKeys tg"
proof -
  from transposeVertices_returns [of "getVertexIDs g" g "[]"] obtain tg where
    t: "transposeVertices g (getVertexIDs g) [] = Inr tg"
    "set (getVertexIDs g) \<subseteq> set (getVertexIDs tg)"
    "set (getVertexIDs tg) \<subseteq> set (getVertexIDs g) \<union> neighborIDs g"
    "neighborIDs tg \<subseteq> neighborIDs [] \<union> set (getVertexIDs g)"
    by (auto simp: getVertexIDs_def)
  have "neighborIDs [] = {}" by (simp add: neighborIDs_def)
  with t assms show ?thesis
    by (auto simp: transposeGraph_def newCapGraph_def neighborsAreKeys_iff)
qed

lemma copyNodes_succeeds:
  "set ids \<subseteq> set (getVertexIDs this) \<Longrightarrow> \<exists>scc'. copyNodes this ids scc = Inr scc'"
proof (induction ids arbitrary: scc)
  case Nil
  then show ?case by simp
next
  case (Cons nodeID rest)
  from Cons.prems getVertex_of_key [of nodeID this] obtain origiNode where
    a: "getVertex this nodeID = Inr origiNode" by auto
  from getVertex_of_key [of nodeID "addVertex scc nodeID"] obtain sccNode where
    b: "getVertex (addVertex scc nodeID) nodeID = Inr sccNode"
    by (auto simp: addVertex_def)
  from Cons.IH [of "AList.update nodeID (fold addNeighbor (getNeighbors origiNode) sccNode)
                      (addVertex scc nodeID)"] Cons.prems a b
  show ?case by (simp add: Let_def)
qed

lemma dfsGraphListLoop_succeeds:
  "neighborsAreKeys graph \<Longrightarrow> set (getVertexIDs graph) \<subseteq> set (getVertexIDs this) \<Longrightarrow>
   set vertices \<subseteq> set (getVertexIDs graph) \<Longrightarrow> set (sccNodeIDs st) \<subseteq> set (getVertexIDs this) \<Longrightarrow>
   \<exists>result. dfsGraphListLoop this graph vertices st sccList = Inr result"
proof (induction this graph vertices st sccList rule: dfsGraphListLoop.induct)
  case (1 this graph vertices st sccList)
  show ?case
  proof (cases "vertices = []")
    case True
    then show ?thesis by (simp add: dfsGraphListLoop.simps)
  next
    case ne: False
    let ?v = "last vertices"
    let ?vs = "butlast vertices"
    have vs: "set vertices = insert ?v (set ?vs)"
      using ne by (cases vertices rule: rev_cases) auto
    with 1(4) have vin: "?v \<in> set (getVertexIDs graph)"
      and sub: "set ?vs \<subseteq> set (getVertexIDs graph)" by auto
    show ?thesis
    proof (cases "?v \<in> visited st")
      case True
      have r: "(if ?v \<notin> visited st
                then case dfsVisit graph ?v st of Inl e \<Rightarrow> Inl e
                     | Inr st' \<Rightarrow> Inr (filter (\<lambda>id. id \<notin> set (sccNodeIDs st')) ?vs, st')
                else Inr (?vs, st)) = Inr (?vs, st)"
        using True by simp
      from copyNodes_succeeds [OF 1(5), of "newCapGraph (Some ?v)"] obtain scc where
        b: "copyNodes this (sccNodeIDs st) (newCapGraph (Some ?v)) = Inr scc" by blast
      from 1(1) [OF ne refl refl r refl b 1(2) 1(3) sub] obtain result where
        "dfsGraphListLoop this graph ?vs (st\<lparr>sccNodeIDs := []\<rparr>) (sccList @ [scc]) = Inr result"
        by auto
      with ne True b show ?thesis
        by (simp add: dfsGraphListLoop.simps [of this graph vertices] Let_def)
    next
      case False
      from dfs_succeeds(1) [OF 1(2) vin] obtain st1 where
        a: "dfsVisit graph ?v st = Inr st1" by blast
      let ?vs2 = "filter (\<lambda>id. id \<notin> set (sccNodeIDs st1)) ?vs"
      have r: "(if ?v \<notin> visited st
                then case dfsVisit graph ?v st of Inl e \<Rightarrow> Inl e
                     | Inr st' \<Rightarrow> Inr (filter (\<lambda>id. id \<notin> set (sccNodeIDs st')) ?vs, st')
                else Inr (?vs, st)) = Inr (?vs2, st1)"
        using False a by simp
      from dfs_sets(1) [OF a] dfs_new_keys(1) [OF a] 1(3) 1(5)
      have ids: "set (sccNodeIDs st1) \<subseteq> set (getVertexIDs this)" by auto
      from copyNodes_succeeds [OF ids, of "newCapGraph (Some ?v)"] obtain scc where
        b: "copyNodes this (sccNodeIDs st1) (newCapGraph (Some ?v)) = Inr scc" by blast
      have sub2: "set ?vs2 \<subseteq> set (getVertexIDs graph)" using sub by auto
      from 1(1) [OF ne refl refl r refl b 1(2) 1(3) sub2] obtain result where
        "dfsGraphListLoop this graph ?vs2 (st1\<lparr>sccNodeIDs := []\<rparr>) (sccList @ [scc]) = Inr result"
        by auto
      with ne False a b show ?thesis
        by (simp add: dfsGraphListLoop.simps [of this graph vertices] Let_def)
    qed
  qed
qed

lemma getSCCs_returns:
  assumes "neighborsAreKeys this"
  shows "\<exists>comps. getSCCs this = Inr comps"
proof -
  from dfs_returns [OF assms subset_refl, of "[]"] obtain fin where
    f: "dfs this (getVertexIDs this) [] = Inr fin" "set fin \<subseteq> set (getVertexIDs this)"
    by blast
  from transposeGraph_returns [OF assms] obtain tg where
    t: "transposeGraph this = Inr tg" "set (getVertexIDs tg) = set (getVertexIDs this)"
    "neighborsAreKeys tg"
    by blast
  have "\<exists>comps. dfsGraphListLoop this tg fin
                  \<lparr>visited = {}, finished = [], sccNodeIDs = []\<rparr> [] = Inr comps"
    using t(2) f(2) by (intro dfsGraphListLoop_succeeds [OF t(3)]) simp_all
  then obtain comps where "dfsGraphList this tg fin [] = Inr comps"
    by (auto simp: dfsGraphList_def)
  with f(1) t(1) show ?thesis
    by (simp add: getSCCs_def)
qed

text \<open>
  C3. \<open>getSCCs\<close> returns a list of components on every graph whose following
  lists hold keys of the graph only (on any other graph a lookup throws). And
  whenever it returns a list of components, the union of their vertex sets is
  the vertex set of the graph, and every vertex of the graph is in the
  component of exactly one position of the list.
\<close>

theorem getSCCs_partitions_vertices:
  "(neighborsAreKeys this \<longrightarrow> (\<exists>comps. getSCCs this = Inr comps))
   \<and> (getSCCs this = Inr comps \<longrightarrow>
        (\<Union>c \<in> set comps. set (getVertexIDs c)) = set (getVertexIDs this)
        \<and> (\<forall>v \<in> set (getVertexIDs this).
              \<exists>!i. i < length comps \<and> v \<in> set (getVertexIDs (comps ! i))))"
  using getSCCs_returns [of this] getSCCs_partition [of this comps] by blast

lemma getSCCs_isolatedGraph_components:
  "getSCCs isolatedGraph = Inr isolatedComponents"
  using getSCCs_isolatedGraph by (simp add: isolatedComponents_def)

theorem getSCCs_partitions_vertices_witness:
  "neighborsAreKeys isolatedGraph
   \<and> getSCCs isolatedGraph = Inr isolatedComponents
   \<and> (\<Union>c \<in> set isolatedComponents. set (getVertexIDs c)) = set (getVertexIDs isolatedGraph)
   \<and> (\<exists>!i. i < length isolatedComponents \<and> 1 \<in> set (getVertexIDs (isolatedComponents ! i)))"
proof -
  have in1: "1 \<in> set (getVertexIDs isolatedGraph)"
    by (simp add: isolatedGraph_def addVertex_def getVertexIDs_def newCapGraph_def)
  have nk: "neighborsAreKeys isolatedGraph"
    by (simp add: isolatedGraph_def addVertex_def getVertexIDs_def newCapGraph_def
        neighborsAreKeys_def newCapNode_def)
  from getSCCs_partitions_vertices [of isolatedGraph isolatedComponents]
    getSCCs_isolatedGraph_components
  have w: "(\<Union>c \<in> set isolatedComponents. set (getVertexIDs c))
             = set (getVertexIDs isolatedGraph)
           \<and> (\<forall>v \<in> set (getVertexIDs isolatedGraph).
                 \<exists>!i. i < length isolatedComponents
                      \<and> v \<in> set (getVertexIDs (isolatedComponents ! i)))"
    by blast
  then have u: "(\<Union>c \<in> set isolatedComponents. set (getVertexIDs c))
                    = set (getVertexIDs isolatedGraph)"
    by (rule conjunct1)
  from w have "\<forall>v \<in> set (getVertexIDs isolatedGraph).
      \<exists>!i. i < length isolatedComponents \<and> v \<in> set (getVertexIDs (isolatedComponents ! i))"
    by (rule conjunct2)
  from bspec [OF this in1] u getSCCs_isolatedGraph_components nk show ?thesis
    by (intro conjI)
qed

section \<open>The sharing rule\<close>

lemma gateExceeded_iff:
  "c \<le> cap \<Longrightarrow>
   gateExceeded V cap c F \<longleftrightarrow> (\<exists>i\<le>length F. cap < c + int (length (filter (\<lambda>f. f \<in> V) (take i F))))"
proof (induction F arbitrary: c)
  case Nil
  then show ?case by simp
next
  case (Cons f F)
  have ex_Suc: "\<And>P. (\<exists>i\<le>Suc (length F). P i) \<longleftrightarrow> P 0 \<or> (\<exists>j\<le>length F. P (Suc j))"
    by (metis Suc_le_mono le0 not0_implies_Suc)
  show ?case
  proof (cases "f \<in> V")
    case True
    show ?thesis
    proof (cases "c + 1 > cap")
      case True
      with \<open>f \<in> V\<close> have "gateExceeded V cap c (f # F)" by simp
      moreover have "cap < c + int (length (filter (\<lambda>f. f \<in> V) (take 1 (f # F))))"
        using True \<open>f \<in> V\<close> by simp
      ultimately show ?thesis by (metis One_nat_def Suc_le_mono le0 length_Cons)
    next
      case False
      then have "c + 1 \<le> cap" by simp
      from Cons.IH [OF this] False \<open>f \<in> V\<close> Cons.prems show ?thesis
        by (simp add: ex_Suc add.assoc)
    qed
  next
    case False
    from Cons.IH [OF Cons.prems] False Cons.prems show ?thesis
      by (simp add: ex_Suc)
  qed
qed

lemma enqueueFollowers_viewed:
  "snd (enqueueFollowers F (q, V)) = V \<union> set F"
  by (induction F arbitrary: q V) auto

lemma enqueueFollowers_queue:
  "\<exists>new. fst (enqueueFollowers F (q, V)) = q @ new \<and> distinct new \<and> set new = set F - set q"
proof (induction F arbitrary: q V)
  case Nil
  then show ?case by simp
next
  case (Cons f F)
  show ?case
  proof (cases "f \<in> set q")
    case True
    with Cons.IH [of q "insert f V"] show ?thesis by auto
  next
    case False
    from Cons.IH [of "q @ [f]" "insert f V"] obtain new where
      n: "fst (enqueueFollowers F (q @ [f], insert f V)) = (q @ [f]) @ new"
      "distinct new" "set new = set F - set (q @ [f])" by blast
    then have "fst (enqueueFollowers (f # F) (q, V)) = q @ (f # new)"
      "distinct (f # new)" "set (f # new) = set (f # F) - set q"
      using False by auto
    then show ?thesis by blast
  qed
qed


lemma ceiling_of_nat_div:
  assumes "0 < d"
  shows "\<lceil>(of_nat n :: rat) / of_nat d\<rceil> = (int n + int d - 1) div int d"
proof (rule ceiling_unique)
  define q where "q = (int n + int d - 1) div int d"
  define r where "r = (int n + int d - 1) mod int d"
  have d: "(0::rat) < of_nat d" using assms by simp
  have m: "int d * q + r = int n + int d - 1"
    unfolding q_def r_def by simp
  have r0: "0 \<le> r" and r1: "r < int d"
    unfolding r_def using assms by simp_all
  have lo: "int d * q - int d < int n"
    using m r0 by linarith
  have hi: "int n \<le> int d * q"
    using m r1 by linarith
  from lo have "(of_int (int d * q - int d) :: rat) < of_int (int n)"
    by (simp only: of_int_less_iff)
  then have "(of_nat d :: rat) * (of_int q - 1) < of_nat n"
    by (simp add: algebra_simps)
  then show "of_int ((int n + int d - 1) div int d) - 1 < (of_nat n :: rat) / of_nat d"
    using d by (simp add: pos_less_divide_eq mult.commute q_def)
  from hi have "(of_int (int n) :: rat) \<le> of_int (int d * q)"
    by (simp only: of_int_le_iff)
  then have "(of_nat n :: rat) \<le> of_int q * of_nat d"
    by (simp add: mult.commute)
  then show "(of_nat n :: rat) / of_nat d \<le> of_int ((int n + int d - 1) div int d)"
    using d by (simp add: pos_divide_le_eq q_def)
qed

lemma calculatePercent_20: "calculatePercent n (2 / 10) = (int n + 4) div 5"
  using ceiling_of_nat_div [of 5 n] by (simp add: calculatePercent_def)

lemma calculatePercent_10: "calculatePercent n (1 / 10) = (int n + 9) div 10"
  using ceiling_of_nat_div [of 10 n] by (simp add: calculatePercent_def)


lemma runningCountExceeds_scan:
  "0 \<le> cap \<Longrightarrow> runningCountExceeds V cap F \<longleftrightarrow> gateExceeded V cap 0 F"
  using gateExceeded_iff [of 0 cap V F] by (simp add: runningCountExceeds_def)

lemma distinct_singleton_set: "distinct xs \<Longrightarrow> set xs = {x} \<Longrightarrow> xs = [x]"
proof (cases xs)
  case Nil
  assume "set xs = {x}"
  with Nil show ?thesis by simp
next
  case (Cons y ys)
  assume d: "distinct xs" and s: "set xs = {x}"
  from s Cons have y: "y = x" and sub: "set ys \<subseteq> {x}" by auto
  from d Cons y have nx: "x \<notin> set ys" by simp
  have "ys = []"
  proof (cases ys)
    case Nil
    then show ?thesis .
  next
    case inner: (Cons z zs)
    with sub have "z = x" by simp
    with inner nx show ?thesis by simp
  qed
  with Cons y show ?thesis by simp
qed

text \<open>
  C7. For a vertex \<open>nodeID\<close> of the graph with follower list \<open>F\<close> and the cap
  \<open>ceil(0.2 * length F)\<close>, written out as a ceiling: when the vertex is a trend
  setter and the running count of followers in the viewed set (which holds
  \<open>nodeID\<close> itself by then) exceeds the cap at some point of the scan,
  \<open>shareVideo\<close> leaves the queue as it was; otherwise, and always for a vertex
  that is no trend setter, the queue is extended by exactly the followers it
  did not hold, each once, and every follower is in the viewed set afterwards.
  The cap that \<open>shareVideo\<close> computes with \<open>calculatePercent\<close> is that ceiling.
\<close>

theorem shareVideo_rule:
  assumes "getVertex this nodeID = Inr node"
  shows "(isTrendSetter node
           \<and> runningCountExceeds (insert nodeID alreadyViewed)
                \<lceil>of_nat (length (followers node)) * (2 / 10 :: rat)\<rceil> (followers node)
          \<longrightarrow> shareVideo this nodeID toVisit alreadyViewed
                = Inr (toVisit, insert nodeID alreadyViewed))
       \<and> (\<not> (isTrendSetter node
               \<and> runningCountExceeds (insert nodeID alreadyViewed)
                    \<lceil>of_nat (length (followers node)) * (2 / 10 :: rat)\<rceil> (followers node))
          \<longrightarrow> (\<exists>new. shareVideo this nodeID toVisit alreadyViewed
                       = Inr (toVisit @ new, insert nodeID alreadyViewed \<union> set (followers node))
                     \<and> distinct new
                     \<and> set new = set (followers node) - set toVisit))
       \<and> calculatePercent (length (followers node)) (2 / 10)
           = \<lceil>of_nat (length (followers node)) * (2 / 10 :: rat)\<rceil>
       \<and> \<lceil>of_nat (length (followers node)) * (2 / 10 :: rat)\<rceil>
           = (int (length (followers node)) + 4) div 5"
proof -
  let ?V = "insert nodeID alreadyViewed"
  let ?F = "followers node"
  let ?cap = "calculatePercent (length ?F) (2 / 10)"
  have ceil: "\<lceil>of_nat (length ?F) * (2 / 10 :: rat)\<rceil> = ?cap"
    by (simp add: calculatePercent_def)
  have V: "(if nodeID \<notin> alreadyViewed then insert nodeID alreadyViewed else alreadyViewed) = ?V"
    by auto
  have c5: "?cap = (int (length ?F) + 4) div 5"
    by (rule calculatePercent_20)
  then have "0 \<le> ?cap"
    by simp
  then have gate: "gateExceeded ?V ?cap 0 ?F \<longleftrightarrow> runningCountExceeds ?V ?cap ?F"
    by (simp only: runningCountExceeds_scan)
  obtain new where new: "fst (enqueueFollowers ?F (toVisit, ?V)) = toVisit @ new"
    "distinct new" "set new = set ?F - set toVisit"
    using enqueueFollowers_queue [of ?F toVisit ?V] by blast
  have enq: "enqueueFollowers ?F (toVisit, ?V) = (toVisit @ new, ?V \<union> set ?F)"
    using new(1) enqueueFollowers_viewed [of ?F toVisit ?V] by (simp add: prod_eq_iff)
  have rule: "(isTrendSetter node \<and> runningCountExceeds ?V ?cap ?F
          \<longrightarrow> shareVideo this nodeID toVisit alreadyViewed = Inr (toVisit, ?V))
       \<and> (\<not> (isTrendSetter node \<and> runningCountExceeds ?V ?cap ?F)
          \<longrightarrow> (\<exists>new. shareVideo this nodeID toVisit alreadyViewed
                       = Inr (toVisit @ new, ?V \<union> set ?F)
                     \<and> distinct new \<and> set new = set ?F - set toVisit))"
    using assms gate enq new(2,3)
    by (simp add: shareVideo_def V getFollowers_def getIsTrendSetter_def Let_def del: insert_iff)
  show ?thesis
    unfolding ceil using rule c5 by blast
qed

theorem shareVideo_rule_witness:
  "getVertex starGraph 1
     = Inr \<lparr>name = 1, neighbors = [2, 3], followers = [2, 3], isTrendSetter = True\<rparr>
   \<and> \<lceil>of_nat (length [2, 3 :: int]) * (2 / 10 :: rat)\<rceil> = 1
   \<and> runningCountExceeds (insert 1 {2, 3}) 1 [2, 3]
   \<and> shareVideo starGraph 1 [1, 2] {2, 3} = Inr ([1, 2], insert 1 {2, 3})
   \<and> \<not> runningCountExceeds (insert 1 {2}) 1 [2, 3]
   \<and> shareVideo starGraph 1 [1, 2] {2} = Inr ([1, 2, 3], insert 1 {2} \<union> {2, 3})"
proof -
  let ?node = "\<lparr>name = 1, neighbors = [2, 3], followers = [2, 3], isTrendSetter = True\<rparr>"
  have h: "getVertex starGraph 1 = Inr ?node"
    by (simp add: getVertex_def starGraph_def)
  have c: "\<lceil>of_nat (length (followers ?node)) * (2 / 10 :: rat)\<rceil> = 1"
    using ceiling_of_nat_div [of 5 2] by simp
  then have c': "\<lceil>of_nat (length [2, 3 :: int]) * (2 / 10 :: rat)\<rceil> = 1"
    by simp
  have over: "runningCountExceeds (insert 1 {2, 3}) 1 [2, 3]"
    by (simp add: runningCountExceeds_scan)
  have under: "\<not> runningCountExceeds (insert 1 {2}) 1 [2, 3]"
    by (simp add: runningCountExceeds_scan)
  note t1 = shareVideo_rule [OF h, of "{2, 3}" "[1, 2]", unfolded c]
  note t2 = shareVideo_rule [OF h, of "{2}" "[1, 2]", unfolded c]
  from t1 over have r1: "shareVideo starGraph 1 [1, 2] {2, 3} = Inr ([1, 2], insert 1 {2, 3})"
    by simp
  from t2 under obtain new where
    n: "shareVideo starGraph 1 [1, 2] {2} = Inr ([1, 2] @ new, insert 1 {2} \<union> {2, 3})"
    "distinct new" "set new = set [2, 3] - set [1, 2]"
    by auto
  from n(3) have "set new = {3}" by auto
  with n(2) have "new = [3]" by (rule distinct_singleton_set)
  with n(1) have r2: "shareVideo starGraph 1 [1, 2] {2} = Inr ([1, 2, 3], insert 1 {2} \<union> {2, 3})"
    by simp
  from h c' over r1 under r2 show ?thesis
    by (intro conjI)
qed

section \<open>Termination of the propagation loops\<close>

lemma generationStep_frame:
  "generationStep this st = (r, st') \<Longrightarrow>
     v_toVisit st' = v_toVisit st \<and> v_visited st' = v_visited st
     \<and> v_shareCalls st' = v_shareCalls st \<and> v_dequeued st' = v_dequeued st
     \<and> v_alreadyViewed st' = v_alreadyViewed st"
  by (auto simp: generationStep_def Let_def split: sum.splits if_splits)

lemma shareVideo_known:
  "shareVideo this nodeID q V = Inr r \<Longrightarrow> nodeID \<in> set (getVertexIDs this)"
  by (auto simp: shareVideo_def split: sum.splits dest: getVertex_known)

lemma shareVideoWithDepth_known:
  "shareVideoWithDepth this nodeID q V d = Inr r \<Longrightarrow> nodeID \<in> set (getVertexIDs this)"
  by (auto simp: shareVideoWithDepth_def split: sum.splits dest: getVertex_known)

lemma unvisited_less:
  assumes "nodeID \<in> set (getVertexIDs this)" "nodeID \<notin> set (v_visited st)"
    "v_visited st' = v_visited st @ [nodeID]"
  shows "unvisited this st' < unvisited this st"
proof -
  have "set (getVertexIDs this) - set (v_visited st') \<subset> set (getVertexIDs this) - set (v_visited st)"
    using assms by auto
  then show ?thesis
    unfolding unvisited_def by (intro psubset_card_mono) simp_all
qed

lemma viralStep_progress:
  assumes "viralStep this nodeID st = (None, st')"
  shows "unvisited this st' < unvisited this st
         \<or> (unvisited this st' = unvisited this st \<and> v_toVisit st' = v_toVisit st)"
proof (cases "nodeID \<in> set (v_visited st)")
  case True
  with assms have "generationStep this st = (None, st')"
    by (simp add: viralStep_def)
  from generationStep_frame [OF this] show ?thesis
    by (simp add: unvisited_def)
next
  case False
  with assms obtain q V where sv: "shareVideo this nodeID (v_toVisit st) (v_alreadyViewed st) = Inr (q, V)"
    and gs: "generationStep this (st\<lparr>v_toVisit := q, v_alreadyViewed := V,
              v_visited := v_visited st @ [nodeID], v_shareCalls := v_shareCalls st @ [nodeID]\<rparr>)
             = (None, st')"
    by (auto simp: viralStep_def split: sum.splits)
  from generationStep_frame [OF gs] have "v_visited st' = v_visited st @ [nodeID]"
    by simp
  with unvisited_less [OF shareVideo_known [OF sv] False] show ?thesis
    by blast
qed

lemma viralLoop_terminates: "\<exists>r. viralLoop this st = Some r"
proof -
  define R where "R = inv_image (less_than <*lex*> less_than)
         (\<lambda>st :: int viral_state. (unvisited this st, length (v_toVisit st)))"
  have "wf R"
    unfolding R_def by (intro wf_inv_image wf_lex_prod wf_less_than)
  then show ?thesis
  proof (induction st rule: wf_induct_rule)
    case (less st)
    show ?case
    proof (cases "v_toVisit st")
      case Nil
      then show ?thesis by (subst viralLoop.simps) simp
    next
      case (Cons nodeID rest)
      let ?st1 = "st\<lparr>v_toVisit := rest, v_dequeued := v_dequeued st @ [nodeID]\<rparr>"
      obtain r st' where step: "viralStep this nodeID ?st1 = (r, st')"
        by (cases "viralStep this nodeID ?st1") auto
      show ?thesis
      proof (cases r)
        case (Some e)
        with Cons step show ?thesis by (subst viralLoop.simps) simp
      next
        case None
        with step have "viralStep this nodeID ?st1 = (None, st')" by simp
        from viralStep_progress [OF this] Cons
        have "(st', st) \<in> R"
          by (auto simp: unvisited_def R_def)
        from less [OF this] obtain r' where "viralLoop this st' = Some r'" by blast
        with Cons step None show ?thesis by (subst viralLoop.simps) simp
      qed
    qed
  qed
qed

lemma limitStep_progress:
  assumes "limitStep this nodeID depth st = (None, st')"
  shows "unvisited this st' < unvisited this st
         \<or> (unvisited this st' = unvisited this st \<and> v_toVisit st' = v_toVisit st)"
proof (cases "nodeID \<in> set (v_visited st)")
  case True
  with assms have "generationStep this st = (None, st')"
    by (simp add: limitStep_def)
  from generationStep_frame [OF this] show ?thesis
    by (simp add: unvisited_def)
next
  case False
  with assms obtain q V where
    sv: "shareVideoWithDepth this nodeID (v_toVisit st) (v_alreadyViewed st) depth = Inr (q, V)"
    and gs: "generationStep this (st\<lparr>v_toVisit := q, v_alreadyViewed := V,
              v_visited := v_visited st @ [nodeID], v_shareCalls := v_shareCalls st @ [nodeID]\<rparr>)
             = (None, st')"
    by (auto simp: limitStep_def split: sum.splits)
  from generationStep_frame [OF gs] have "v_visited st' = v_visited st @ [nodeID]"
    by simp
  with unvisited_less [OF shareVideoWithDepth_known [OF sv] False] show ?thesis
    by blast
qed

lemma limitLoop_terminates: "\<exists>r. limitLoop this maxDepth st = Some r"
proof -
  define R where "R = inv_image (less_than <*lex*> less_than)
         (\<lambda>st :: (int \<times> int) viral_state. (unvisited this st, length (v_toVisit st)))"
  have "wf R"
    unfolding R_def by (intro wf_inv_image wf_lex_prod wf_less_than)
  then show ?thesis
  proof (induction st rule: wf_induct_rule)
    case (less st)
    show ?case
    proof (cases "v_toVisit st")
      case Nil
      then show ?thesis by (subst limitLoop.simps) simp
    next
      case (Cons item rest)
      obtain nodeID depth where item: "item = (nodeID, depth)" by (cases item) auto
      let ?st1 = "st\<lparr>v_toVisit := rest, v_dequeued := v_dequeued st @ [nodeID]\<rparr>"
      show ?thesis
      proof (cases "depth > maxDepth")
        case True
        have "(?st1, st) \<in> R"
          using Cons by (simp add: R_def unvisited_def)
        from less [OF this] obtain r' where "limitLoop this maxDepth ?st1 = Some r'" by blast
        with Cons item True show ?thesis by (subst limitLoop.simps) simp
      next
        case False
        obtain r st' where step: "limitStep this nodeID depth ?st1 = (r, st')"
          by (cases "limitStep this nodeID depth ?st1") auto
        show ?thesis
        proof (cases r)
          case (Some e)
          with Cons item False step show ?thesis by (subst limitLoop.simps) simp
        next
          case None
          with step have "limitStep this nodeID depth ?st1 = (None, st')" by simp
          from limitStep_progress [OF this] Cons
          have "(st', st) \<in> R"
            by (auto simp: unvisited_def R_def)
          from less [OF this] obtain r' where "limitLoop this maxDepth st' = Some r'" by blast
          with Cons item False step None show ?thesis by (subst limitLoop.simps) simp
        qed
      qed
    qed
  qed
qed

section \<open>Runs on graphs without dangling identifiers end without an error\<close>

lemma shareVideo_queue:
  assumes "getVertex this nodeID = Inr node"
  shows "\<exists>q V. shareVideo this nodeID toVisit viewed = Inr (q, V)
           \<and> set q \<subseteq> set toVisit \<union> set (followers node)"
proof -
  let ?V = "if nodeID \<notin> viewed then insert nodeID viewed else viewed"
  obtain new where "fst (enqueueFollowers (followers node) (toVisit, ?V)) = toVisit @ new"
    "set new = set (followers node) - set toVisit"
    using enqueueFollowers_queue [of "followers node" toVisit ?V] by blast
  then have "set (fst (enqueueFollowers (followers node) (toVisit, ?V)))
               \<subseteq> set toVisit \<union> set (followers node)"
    by auto
  then show ?thesis
    using assms
    by (cases "enqueueFollowers (followers node) (toVisit, ?V)")
      (auto simp: shareVideo_def Let_def getFollowers_def)
qed

lemma enqueueFollowersWithDepth_queue:
  "fst ` set (fst (enqueueFollowersWithDepth d F (q, V))) \<subseteq> fst ` set q \<union> set F"
proof (induction F arbitrary: q V)
  case Nil
  then show ?case by simp
next
  case (Cons f F)
  define q1 where "q1 = (if \<not> list_ex (\<lambda>item. fst item = f) q then q @ [(f, d + 1)] else q)"
  have "fst ` set q1 \<subseteq> insert f (fst ` set q)" by (auto simp: q1_def)
  moreover have "fst ` set (fst (enqueueFollowersWithDepth d F (q1, insert f V)))
                   \<subseteq> fst ` set q1 \<union> set F"
    by (rule Cons.IH)
  moreover have "enqueueFollowersWithDepth d (f # F) (q, V)
                   = enqueueFollowersWithDepth d F (q1, insert f V)"
    by (simp add: q1_def)
  ultimately show ?case by (simp only: set_simps) blast
qed

lemma shareVideoWithDepth_queue:
  assumes "getVertex this nodeID = Inr node"
  shows "\<exists>q V. shareVideoWithDepth this nodeID toVisit viewed d = Inr (q, V)
           \<and> fst ` set q \<subseteq> fst ` set toVisit \<union> set (followers node)"
proof -
  let ?V = "if nodeID \<notin> viewed then insert nodeID viewed else viewed"
  have "fst ` set (fst (enqueueFollowersWithDepth d (followers node) (toVisit, ?V)))
               \<subseteq> fst ` set toVisit \<union> set (followers node)"
    by (rule enqueueFollowersWithDepth_queue)
  then show ?thesis
    using assms
    by (cases "enqueueFollowersWithDepth d (followers node) (toVisit, ?V)")
      (auto simp: shareVideoWithDepth_def Let_def getFollowers_def)
qed

lemma addVertices_succeeds:
  "set nodes \<subseteq> set (getVertexIDs this) \<Longrightarrow> \<exists>sg'. addVertices this sg nodes = Inr sg'"
proof (induction nodes arbitrary: sg)
  case Nil
  then show ?case by simp
next
  case (Cons nodeID rest)
  from Cons.prems getVertex_of_key [of nodeID this] obtain origiNode where
    a: "getVertex this nodeID = Inr origiNode" by auto
  from getVertex_of_key [of nodeID "addVertex sg nodeID"] obtain newNode where
    b: "getVertex (addVertex sg nodeID) nodeID = Inr newNode"
    by (auto simp: addVertex_def)
  from Cons.IH [of sg]
    Cons.IH [of "AList.update nodeID (fold addNeighbor (getNeighbors origiNode) newNode)
                      (addVertex sg nodeID)"] Cons.prems a b
  show ?case by (simp add: Let_def)
qed

lemma generationStep_ok:
  assumes "set (v_visited st) \<subseteq> set (getVertexIDs this)"
  shows "fst (generationStep this st) = None"
proof -
  from addVertices_succeeds [OF assms, of "v_subGraph st"] obtain sg where
    "addVertices this (v_subGraph st) (v_visited st) = Inr sg" by blast
  then show ?thesis by (simp add: generationStep_def Let_def)
qed

lemma viralStep_ok:
  assumes "followersAreKeys this" "nodeID \<in> set (getVertexIDs this)"
    "queueInGraph this (v_toVisit st) st"
  shows "\<exists>st'. viralStep this nodeID st = (None, st') \<and> queueInGraph this (v_toVisit st') st'"
proof (cases "nodeID \<in> set (v_visited st)")
  case True
  obtain r st' where g: "generationStep this st = (r, st')"
    by (cases "generationStep this st") auto
  from generationStep_ok [of st this] assms(3) g have "r = None"
    by (simp add: queueInGraph_def)
  with g generationStep_frame [OF g] assms(3) True show ?thesis
    by (simp add: viralStep_def queueInGraph_def)
next
  case False
  from getVertex_of_key [OF assms(2)] obtain node where n: "getVertex this nodeID = Inr node" ..
  from shareVideo_queue [OF n, of "v_toVisit st" "v_alreadyViewed st"] obtain q V where
    sv: "shareVideo this nodeID (v_toVisit st) (v_alreadyViewed st) = Inr (q, V)"
    "set q \<subseteq> set (v_toVisit st) \<union> set (followers node)"
    by blast
  let ?st1 = "st\<lparr>v_toVisit := q, v_alreadyViewed := V,
              v_visited := v_visited st @ [nodeID], v_shareCalls := v_shareCalls st @ [nodeID]\<rparr>"
  have inv1: "queueInGraph this q ?st1"
    using sv(2) assms getVertex_followers [OF assms(1) n] by (auto simp: queueInGraph_def)
  obtain r st' where g: "generationStep this ?st1 = (r, st')"
    by (cases "generationStep this ?st1") auto
  from generationStep_ok [of ?st1 this] inv1 g have "r = None"
    by (simp add: queueInGraph_def)
  with g generationStep_frame [OF g] inv1 False sv(1) show ?thesis
    by (simp add: viralStep_def queueInGraph_def)
qed

lemma viralLoop_ok:
  assumes "viralLoop this st = Some y"
  shows "followersAreKeys this \<and> queueInGraph this (v_toVisit st) st \<longrightarrow> fst y = None"
  using assms
proof (rule viralLoop.raw_induct [rotated 1])
  fix loop :: "CapGraph \<Rightarrow> int viral_state \<Rightarrow> (error option \<times> int viral_state) option"
    and this st y
  assume IH: "\<And>this st y. loop this st = Some y \<Longrightarrow>
                 followersAreKeys this \<and> queueInGraph this (v_toVisit st) st \<longrightarrow> fst y = None"
    and body: "(case v_toVisit st of
                  [] \<Rightarrow> Some (None, st)
                | nodeID # rest \<Rightarrow>
                    (case viralStep this nodeID
                            (st\<lparr>v_toVisit := rest, v_dequeued := v_dequeued st @ [nodeID]\<rparr>) of
                       (None, st') \<Rightarrow> loop this st'
                     | (Some e, st') \<Rightarrow> Some (Some e, st'))) = Some y"
  show "followersAreKeys this \<and> queueInGraph this (v_toVisit st) st \<longrightarrow> fst y = None"
  proof
    assume inv: "followersAreKeys this \<and> queueInGraph this (v_toVisit st) st"
    show "fst y = None"
    proof (cases "v_toVisit st")
      case Nil
      with body show ?thesis by auto
    next
      case (Cons nodeID rest)
      let ?st1 = "st\<lparr>v_toVisit := rest, v_dequeued := v_dequeued st @ [nodeID]\<rparr>"
      have "nodeID \<in> set (getVertexIDs this)" "queueInGraph this (v_toVisit ?st1) ?st1"
        using inv Cons by (auto simp: queueInGraph_def)
      from viralStep_ok [OF _ this] inv obtain st' where
        step: "viralStep this nodeID ?st1 = (None, st')" "queueInGraph this (v_toVisit st') st'"
        by blast
      with body Cons have "loop this st' = Some y" by simp
      from IH [OF this] inv step(2) show ?thesis by simp
    qed
  qed
qed

lemma startViralSharing_completes:
  assumes "followersAreKeys this" "startingNodeID \<in> set (getVertexIDs this)"
  shows "\<exists>st. startViralSharing this startingNodeID = Some (None, st)"
proof -
  from getVertex_of_key [OF assms(2)] obtain startingNode where
    n: "getVertex this startingNodeID = Inr startingNode" ..
  let ?st0 = "initialState startingNodeID (startingNodeID # getFollowers startingNode) :: int viral_state"
  from viralLoop_terminates [of this ?st0] obtain y where y: "viralLoop this ?st0 = Some y"
    by blast
  have "queueInGraph this (v_toVisit ?st0) ?st0"
    using assms(2) getVertex_followers [OF assms(1) n]
    by (simp add: queueInGraph_def initialState_def getFollowers_def)
  with viralLoop_ok [OF y] assms(1) have "fst y = None" by simp
  with y n show ?thesis
    by (cases y) (simp add: startViralSharing_def)
qed


lemma limitStep_ok:
  assumes "followersAreKeys this" "nodeID \<in> set (getVertexIDs this)"
    "queueInGraph this (map fst (v_toVisit st)) st"
  shows "\<exists>st'. limitStep this nodeID depth st = (None, st')
           \<and> queueInGraph this (map fst (v_toVisit st')) st'"
proof (cases "nodeID \<in> set (v_visited st)")
  case True
  obtain r st' where g: "generationStep this st = (r, st')"
    by (cases "generationStep this st") auto
  from generationStep_ok [of st this] assms(3) g have "r = None"
    by (simp add: queueInGraph_def)
  with g generationStep_frame [OF g] assms(3) True show ?thesis
    by (simp add: limitStep_def queueInGraph_def)
next
  case False
  from getVertex_of_key [OF assms(2)] obtain node where n: "getVertex this nodeID = Inr node" ..
  from shareVideoWithDepth_queue [OF n, of "v_toVisit st" "v_alreadyViewed st" depth]
  obtain q V where
    sv: "shareVideoWithDepth this nodeID (v_toVisit st) (v_alreadyViewed st) depth = Inr (q, V)"
    "fst ` set q \<subseteq> fst ` set (v_toVisit st) \<union> set (followers node)"
    by blast
  let ?st1 = "st\<lparr>v_toVisit := q, v_alreadyViewed := V,
              v_visited := v_visited st @ [nodeID], v_shareCalls := v_shareCalls st @ [nodeID]\<rparr>"
  have inv1: "queueInGraph this (map fst q) ?st1"
    using sv(2) assms getVertex_followers [OF assms(1) n] by (auto simp: queueInGraph_def)
  obtain r st' where g: "generationStep this ?st1 = (r, st')"
    by (cases "generationStep this ?st1") auto
  from generationStep_ok [of ?st1 this] inv1 g have "r = None"
    by (simp add: queueInGraph_def)
  with g generationStep_frame [OF g] inv1 False sv(1) show ?thesis
    by (simp add: limitStep_def queueInGraph_def)
qed

lemma limitLoop_ok:
  assumes "limitLoop this maxDepth st = Some y"
  shows "followersAreKeys this \<and> queueInGraph this (map fst (v_toVisit st)) st \<longrightarrow> fst y = None"
  using assms
proof (rule limitLoop.raw_induct [rotated 1])
  fix loop :: "CapGraph \<Rightarrow> int \<Rightarrow> (int \<times> int) viral_state
                 \<Rightarrow> (error option \<times> (int \<times> int) viral_state) option"
    and this maxDepth st y
  assume IH: "\<And>this maxDepth st y. loop this maxDepth st = Some y \<Longrightarrow>
                 followersAreKeys this \<and> queueInGraph this (map fst (v_toVisit st)) st
                 \<longrightarrow> fst y = None"
    and body: "(case v_toVisit st of
                  [] \<Rightarrow> Some (None, st)
                | (nodeID, depth) # rest \<Rightarrow>
                    (let st1 = st\<lparr>v_toVisit := rest, v_dequeued := v_dequeued st @ [nodeID]\<rparr>
                     in if depth > maxDepth then loop this maxDepth st1
                        else (case limitStep this nodeID depth st1 of
                                (None, st') \<Rightarrow>
                                  if length (v_visited st') > 100000 then Some (None, st')
                                  else loop this maxDepth st'
                              | (Some e, st') \<Rightarrow> Some (Some e, st')))) = Some y"
  show "followersAreKeys this \<and> queueInGraph this (map fst (v_toVisit st)) st \<longrightarrow> fst y = None"
  proof
    assume inv: "followersAreKeys this \<and> queueInGraph this (map fst (v_toVisit st)) st"
    show "fst y = None"
    proof (cases "v_toVisit st")
      case Nil
      with body show ?thesis by auto
    next
      case (Cons item rest)
      obtain nodeID depth where item: "item = (nodeID, depth)" by (cases item) auto
      let ?st1 = "st\<lparr>v_toVisit := rest, v_dequeued := v_dequeued st @ [nodeID]\<rparr>"
      have k: "nodeID \<in> set (getVertexIDs this)"
        and q1: "queueInGraph this (map fst (v_toVisit ?st1)) ?st1"
        using inv Cons item by (auto simp: queueInGraph_def)
      show ?thesis
      proof (cases "depth > maxDepth")
        case True
        with body Cons item have "loop this maxDepth ?st1 = Some y" by simp
        from IH [OF this] inv q1 show ?thesis by simp
      next
        case False
        from limitStep_ok [OF _ k q1, of depth] inv obtain st' where
          step: "limitStep this nodeID depth ?st1 = (None, st')"
          "queueInGraph this (map fst (v_toVisit st')) st'"
          by blast
        show ?thesis
        proof (cases "length (v_visited st') > 100000")
          case True
          with body Cons item False step(1) show ?thesis by auto
        next
          case small: False
          with body Cons item False step(1) have "loop this maxDepth st' = Some y" by simp
          from IH [OF this] inv step(2) show ?thesis by simp
        qed
      qed
    qed
  qed
qed

lemma startViralSharingWithLimit_completes:
  assumes "followersAreKeys this" "startingNodeID \<in> set (getVertexIDs this)"
  shows "\<exists>st. startViralSharingWithLimit this startingNodeID maxDepthArg = Some (None, st)"
proof -
  from getVertex_of_key [OF assms(2)] obtain startingNode where
    n: "getVertex this startingNodeID = Inr startingNode" ..
  define maxDepth :: int where "maxDepth = (case maxDepthArg of None \<Rightarrow> 3 | Some d \<Rightarrow> d)"
  let ?st0 = "initialState startingNodeID
                ((startingNodeID, 0) # map (\<lambda>f. (f, 1)) (getFollowers startingNode))
              :: (int \<times> int) viral_state"
  from limitLoop_terminates [of this maxDepth ?st0] obtain y where
    y: "limitLoop this maxDepth ?st0 = Some y"
    by blast
  have "queueInGraph this (map fst (v_toVisit ?st0)) ?st0"
    using assms(2) getVertex_followers [OF assms(1) n]
    by (auto simp: queueInGraph_def initialState_def getFollowers_def)
  with limitLoop_ok [OF y] assms(1) have "fst y = None" by simp
  with y n show ?thesis
    by (cases y) (simp add: startViralSharingWithLimit_def maxDepth_def)
qed

lemma cycleGraph_eq:
  "cycleGraph =
     [(1, \<lparr>name = 1, neighbors = [2], followers = [2], isTrendSetter = False\<rparr>),
      (2, \<lparr>name = 2, neighbors = [1], followers = [1], isTrendSetter = False\<rparr>)]"
  by (simp add: cycleGraph_def addEdge_def addVertex_def getVertex_def newCapNode_def
      addNeighbor_def addFollower_def newCapGraph_def)

text \<open>
  C9. Both \<open>startViralSharing\<close> and \<open>startViralSharingWithLimit\<close> return, for
  every graph, start vertex and depth bound: each round either visits a vertex
  of the graph that was not visited before or shortens the queue, or the run
  stops (empty queue, safety cutoff, or an error thrown by a lookup). When the
  start vertex is in the graph and the followers lists hold keys of the graph
  only, both runs end without an error.
\<close>

theorem viral_sharing_terminates:
  "(\<exists>r. startViralSharing this startingNodeID = Some r)
   \<and> (\<exists>r. startViralSharingWithLimit this startingNodeID maxDepthArg = Some r)
   \<and> (followersAreKeys this \<and> startingNodeID \<in> set (getVertexIDs this) \<longrightarrow>
        (\<exists>st. startViralSharing this startingNodeID = Some (None, st))
        \<and> (\<exists>st. startViralSharingWithLimit this startingNodeID maxDepthArg = Some (None, st)))"
  using viralLoop_terminates limitLoop_terminates
    startViralSharing_completes [of this startingNodeID]
    startViralSharingWithLimit_completes [of this startingNodeID maxDepthArg]
  by (simp add: startViralSharing_def startViralSharingWithLimit_def split: sum.splits)

theorem viral_sharing_terminates_witness:
  "followersAreKeys cycleGraph \<and> 1 \<in> set (getVertexIDs cycleGraph)
   \<and> (\<exists>st. startViralSharing cycleGraph 1 = Some (None, st))
   \<and> (\<exists>st. startViralSharingWithLimit cycleGraph 1 None = Some (None, st))"
proof -
  have h: "followersAreKeys cycleGraph \<and> 1 \<in> set (getVertexIDs cycleGraph)"
    by (simp add: cycleGraph_eq followersAreKeys_def getVertexIDs_def)
  with viral_sharing_terminates [of cycleGraph 1 None] show ?thesis
    by blast
qed

section \<open>One evaluation of the sharing rule per vertex\<close>

lemma generationStep_calls:
  "generationStep this st = (r, st') \<Longrightarrow> callsMatchVisited st \<Longrightarrow> callsMatchVisited st'"
  using generationStep_frame [of this st r st'] by (simp add: callsMatchVisited_def)

lemma viralStep_calls:
  assumes "viralStep this nodeID st = (r, st')" "callsMatchVisited st"
  shows "distinct (v_shareCalls st') \<and> (r = None \<longrightarrow> callsMatchVisited st')"
proof (cases "nodeID \<in> set (v_visited st)")
  case True
  with assms(1) have "generationStep this st = (r, st')"
    by (simp add: viralStep_def)
  from generationStep_calls [OF this assms(2)] show ?thesis
    by (simp add: callsMatchVisited_def)
next
  case False
  show ?thesis
  proof (cases "shareVideo this nodeID (v_toVisit st) (v_alreadyViewed st)")
    case (Inl e)
    with False assms show ?thesis
      by (auto simp: viralStep_def callsMatchVisited_def)
  next
    case (Inr p)
    obtain q V where p: "p = (q, V)" by (cases p) auto
    let ?st1 = "st\<lparr>v_toVisit := q, v_alreadyViewed := V,
              v_visited := v_visited st @ [nodeID], v_shareCalls := v_shareCalls st @ [nodeID]\<rparr>"
    from False assms(1) Inr p have gs: "generationStep this ?st1 = (r, st')"
      by (simp add: viralStep_def)
    have "callsMatchVisited ?st1"
      using assms(2) False by (simp add: callsMatchVisited_def)
    from generationStep_calls [OF gs this] show ?thesis
      by (simp add: callsMatchVisited_def)
  qed
qed

lemma viralLoop_calls:
  assumes "viralLoop this st = Some y"
  shows "callsMatchVisited st \<longrightarrow> distinct (v_shareCalls (snd y))"
  using assms
proof (rule viralLoop.raw_induct [rotated 1])
  fix loop :: "CapGraph \<Rightarrow> int viral_state \<Rightarrow> (error option \<times> int viral_state) option"
    and this st y
  assume IH: "\<And>this st y. loop this st = Some y \<Longrightarrow>
                 callsMatchVisited st \<longrightarrow> distinct (v_shareCalls (snd y))"
    and body: "(case v_toVisit st of
                  [] \<Rightarrow> Some (None, st)
                | nodeID # rest \<Rightarrow>
                    (case viralStep this nodeID
                            (st\<lparr>v_toVisit := rest, v_dequeued := v_dequeued st @ [nodeID]\<rparr>) of
                       (None, st') \<Rightarrow> loop this st'
                     | (Some e, st') \<Rightarrow> Some (Some e, st'))) = Some y"
  show "callsMatchVisited st \<longrightarrow> distinct (v_shareCalls (snd y))"
  proof
    assume inv: "callsMatchVisited st"
    show "distinct (v_shareCalls (snd y))"
    proof (cases "v_toVisit st")
      case Nil
      with inv body show ?thesis
        by (auto simp: callsMatchVisited_def)
    next
      case (Cons nodeID rest)
      let ?st1 = "st\<lparr>v_toVisit := rest, v_dequeued := v_dequeued st @ [nodeID]\<rparr>"
      obtain r st' where step: "viralStep this nodeID ?st1 = (r, st')"
        by (cases "viralStep this nodeID ?st1") auto
      have "callsMatchVisited ?st1"
        using inv by (simp add: callsMatchVisited_def)
      from viralStep_calls [OF step this]
      have d: "distinct (v_shareCalls st')" and c: "r = None \<longrightarrow> callsMatchVisited st'"
        by simp_all
      show ?thesis
      proof (cases r)
        case None
        with body Cons step have "loop this st' = Some y" by simp
        from IH [OF this] c None show ?thesis by simp
      next
        case (Some e)
        with body Cons step have "y = (Some e, st')" by simp
        with d show ?thesis by simp
      qed
    qed
  qed
qed

lemma startViralSharing_cycleGraph:
  "map_option (\<lambda>(r, st'). (r, v_dequeued st', v_shareCalls st')) (startViralSharing cycleGraph 1)
     = Some (None, [1, 2, 1], [1, 2])"
  by code_simp

text \<open>
  C10. In every run of \<open>startViralSharing\<close> that returns, no vertex occurs twice
  in the trace of \<open>shareVideo\<close> calls. A visited vertex can nevertheless come
  back into the queue: on the graph where 1 and 2 follow each other, started at
  1, the vertices taken from the queue are 1, 2, 1 (vertex 1 is queued again by
  the sharing of vertex 2), and \<open>shareVideo\<close> is called for 1 and 2 once each.
\<close>

theorem shareVideo_called_once_per_node:
  assumes "startViralSharing this startingNodeID = Some (r, st')"
  shows "distinct (v_shareCalls st')
         \<and> map_option (\<lambda>(r, st'). (r, v_dequeued st', v_shareCalls st'))
              (startViralSharing cycleGraph 1) = Some (None, [1, 2, 1], [1, 2])"
proof (cases "getVertex this startingNodeID")
  case (Inl e)
  with assms show ?thesis
    using startViralSharing_cycleGraph by (auto simp: startViralSharing_def initialState_def)
next
  case (Inr startingNode)
  with assms have "viralLoop this
      (initialState startingNodeID (startingNodeID # getFollowers startingNode)) = Some (r, st')"
    by (simp add: startViralSharing_def)
  from viralLoop_calls [OF this] show ?thesis
    using startViralSharing_cycleGraph by (simp add: callsMatchVisited_def initialState_def)
qed

lemma startViralSharing_cycleGraph_run:
  "startViralSharing cycleGraph 1 =
     Some (None,
       \<lparr>v_toVisit = [], v_visited = [1, 2], v_alreadyViewed = {2, 1}, v_n = 3,
        v_currentGraphLength = 2, v_previousGraphLength = 2,
        v_subGraph =
          [(1, \<lparr>name = 1, neighbors = [2], followers = [], isTrendSetter = False\<rparr>),
           (2, \<lparr>name = 2, neighbors = [1], followers = [], isTrendSetter = False\<rparr>)],
        v_generations = [(1, [1]), (2, [1, 2])], v_dequeued = [1, 2, 1],
        v_shareCalls = [1, 2]\<rparr>)"
  by code_simp

theorem shareVideo_called_once_per_node_witness:
  "startViralSharing cycleGraph 1 =
     Some (None,
       \<lparr>v_toVisit = [], v_visited = [1, 2], v_alreadyViewed = {2, 1}, v_n = 3,
        v_currentGraphLength = 2, v_previousGraphLength = 2,
        v_subGraph =
          [(1, \<lparr>name = 1, neighbors = [2], followers = [], isTrendSetter = False\<rparr>),
           (2, \<lparr>name = 2, neighbors = [1], followers = [], isTrendSetter = False\<rparr>)],
        v_generations = [(1, [1]), (2, [1, 2])], v_dequeued = [1, 2, 1],
        v_shareCalls = [1, 2]\<rparr>)
   \<and> distinct [1, 2 :: int]"
  using shareVideo_called_once_per_node [OF startViralSharing_cycleGraph_run]
    startViralSharing_cycleGraph_run by simp


section \<open>Trend-setter marks\<close>

text \<open>
  The comparison function handed to \<open>sort\<close> is the difference of the sort keys
  used in \<open>buildNodeQueue\<close>.
\<close>

lemma compare_key:
  "- compare node1 node2
     = (- int (getNumNeighbors node1)) - (- int (getNumNeighbors node2))"
  by (simp add: compare_def)

lemma getVertexIDs_structureOf: "getVertexIDs g = map fst (structureOf g)"
  by (simp add: getVertexIDs_def structureOf_def case_prod_unfold)

lemma structureOf_mark [simp]:
  "structureOf (AList.map_entry k (setIsTrendSetter b) g) = structureOf g"
  by (induction g) (auto simp: structureOf_def setIsTrendSetter_def)

lemma getVertexIDs_mark [simp]:
  "getVertexIDs (AList.map_entry k (setIsTrendSetter b) g) = getVertexIDs g"
  by (simp add: getVertexIDs_structureOf)

lemma isMarked_mark:
  "isMarked (AList.map_entry k (setIsTrendSetter True) g) k'
     \<longleftrightarrow> isMarked g k' \<or> (k' = k \<and> k \<in> set (getVertexIDs g))"
  by (auto simp: isMarked_def getVertex_def map_of_map_entry setIsTrendSetter_def
      getIsTrendSetter_def getVertexIDs_def map_of_eq_None_iff [symmetric]
      split: option.splits)

lemma trendSetterIDs_mark:
  "set (trendSetterIDs (AList.map_entry k (setIsTrendSetter True) g))
     = set (trendSetterIDs g) \<union> ({k} \<inter> set (getVertexIDs g))"
  by (auto simp: trendSetterIDs_def isMarked_mark)

lemma markTrendSetters_structure [simp]:
  "structureOf (markTrendSetters i q g) = structureOf g"
  by (induction i q g rule: markTrendSetters.induct) simp_all

lemma markTrendSetters_marks:
  "set (trendSetterIDs (markTrendSetters i q g))
     = set (trendSetterIDs g) \<union> (fst ` set (take i q) \<inter> set (getVertexIDs g))"
proof (induction i q g rule: markTrendSetters.induct)
  case (1 followersQueue this)
  then show ?case by simp
next
  case (2 i this)
  then show ?case by simp
next
  case (3 i nodeID trendyNode followersQueue this)
  then show ?case
    by (simp add: trendSetterIDs_mark) blast
qed

lemma rankComponents_structure:
  "structureOf (snd (rankComponents this comps)) = structureOf this"
  by (induction this comps rule: rankComponents.induct)
    (simp_all add: Let_def split: sum.splits)

lemma rankComponents_keeps_marks:
  "set (trendSetterIDs this) \<subseteq> set (trendSetterIDs (snd (rankComponents this comps)))"
proof (induction this comps rule: rankComponents.induct)
  case (1 this)
  then show ?case by simp
next
  case (2 this scc rest)
  show ?case
  proof (cases "length (getVertexIDs scc) > 2")
    case False
    with 2(2) show ?thesis by (simp add: Let_def)
  next
    case True
    show ?thesis
    proof (cases "buildNodeQueue this (length (getVertexIDs scc)) scc")
      case (Inl e)
      with True show ?thesis by (simp add: Let_def)
    next
      case (Inr q)
      from 2(1) [OF refl True refl Inr] True Inr show ?thesis
        by (simp add: Let_def markTrendSetters_marks)
    qed
  qed
qed

lemma identifyTrendSetters_structure:
  "structureOf (snd (identifyTrendSetters this)) = structureOf this"
  by (simp add: identifyTrendSetters_def rankComponents_structure split: sum.splits)

lemma identifyTrendSetters_keeps_marks:
  "set (trendSetterIDs this) \<subseteq> set (trendSetterIDs (snd (identifyTrendSetters this)))"
  by (simp add: identifyTrendSetters_def rankComponents_keeps_marks split: sum.splits)

lemma isMarked_update_same_flag:
  assumes "getVertex g k = Inr node" "isTrendSetter node' = isTrendSetter node"
  shows "isMarked (AList.update k node' g) k' = isMarked g k'"
  using assms
  by (auto simp: isMarked_def getVertex_def update_conv' getIsTrendSetter_def split: option.splits)

lemma trendSetterIDs_update_same_flag:
  assumes "getVertex g k = Inr node" "isTrendSetter node' = isTrendSetter node"
  shows "set (trendSetterIDs (AList.update k node' g)) = set (trendSetterIDs g)"
proof -
  have "k \<in> set (getVertexIDs g)" using assms(1) by (rule getVertex_known)
  then show ?thesis
    using isMarked_update_same_flag [OF assms]
    by (auto simp: trendSetterIDs_def)
qed

lemma addEdge_keeps_marks:
  "set (trendSetterIDs (snd (addEdge g from to))) = set (trendSetterIDs g)"
proof (cases "getVertex g from")
  case (Inl e)
  then show ?thesis by (simp add: addEdge_def)
next
  case (Inr fromNode)
  let ?g1 = "AList.update from (addNeighbor to fromNode) g"
  have g1: "set (trendSetterIDs ?g1) = set (trendSetterIDs g)"
    by (rule trendSetterIDs_update_same_flag [OF Inr]) (simp add: addNeighbor_def)
  show ?thesis
  proof (cases "getVertex ?g1 to")
    case (Inl e)
    with Inr g1 show ?thesis by (simp add: addEdge_def)
  next
    case toNode: (Inr toNode)
    have "set (trendSetterIDs (AList.update to (addFollower from toNode) ?g1))
            = set (trendSetterIDs ?g1)"
      by (rule trendSetterIDs_update_same_flag [OF toNode]) (simp add: addFollower_def)
    with Inr toNode g1 show ?thesis by (simp add: addEdge_def)
  qed
qed

lemma removeNeighbor_flag:
  "isTrendSetter (snd (removeNeighbor neighbor node)) = isTrendSetter node"
  by (simp add: removeNeighbor_def Let_def)

lemma removeEdge_keeps_marks:
  "set (trendSetterIDs (snd (snd (removeEdge g from to)))) = set (trendSetterIDs g)"
proof (cases "getVertex g from")
  case (Inl e)
  then show ?thesis by (simp add: removeEdge_def)
next
  case (Inr fromNode)
  have "set (trendSetterIDs (AList.update from (snd (removeNeighbor to fromNode)) g))
          = set (trendSetterIDs g)"
    by (rule trendSetterIDs_update_same_flag [OF Inr]) (rule removeNeighbor_flag)
  with Inr show ?thesis
    by (simp add: removeEdge_def case_prod_unfold)
qed

text \<open>
  C8, as stated, fails for \<open>addVertex\<close>: on the cycle 1, 2, 3 the ranker marks
  vertex 2, and \<open>addVertex(2)\<close> then replaces that vertex by a fresh one: the
  flag of vertex 2 has gone from true to false.
\<close>

theorem addVertex_resets_trend_setter:
  "trendSetterIDs (snd (identifyTrendSetters triangleGraph)) = [2]
   \<and> isMarked (snd (identifyTrendSetters triangleGraph)) 2
   \<and> \<not> isMarked (addVertex (snd (identifyTrendSetters triangleGraph)) 2) 2
   \<and> trendSetterIDs (addVertex (snd (identifyTrendSetters triangleGraph)) 2) = []"
  by code_simp

text \<open>
  C8, amended. \<open>identifyTrendSetters\<close> keeps every mark of the graph it is
  called on, hence a second call keeps the marks of the first; it leaves the
  keys, their order and every following and followers list as they were, also
  when it ends with an error. \<open>addEdge\<close> and \<open>removeEdge\<close> leave the set of
  marked vertices as it was.
\<close>

theorem trend_setter_marks_are_kept:
  "set (trendSetterIDs this) \<subseteq> set (trendSetterIDs (snd (identifyTrendSetters this)))
   \<and> set (trendSetterIDs (snd (identifyTrendSetters this)))
       \<subseteq> set (trendSetterIDs (snd (identifyTrendSetters (snd (identifyTrendSetters this)))))
   \<and> structureOf (snd (identifyTrendSetters this)) = structureOf this
   \<and> getVertexIDs (snd (identifyTrendSetters this)) = getVertexIDs this
   \<and> set (trendSetterIDs (snd (addEdge this from to))) = set (trendSetterIDs this)
   \<and> set (trendSetterIDs (snd (snd (removeEdge this from to)))) = set (trendSetterIDs this)"
  using identifyTrendSetters_keeps_marks [of this]
    identifyTrendSetters_keeps_marks [of "snd (identifyTrendSetters this)"]
    identifyTrendSetters_structure [of this] addEdge_keeps_marks [of this "from" "to"]
    removeEdge_keeps_marks [of this "from" "to"]
  by (simp add: getVertexIDs_structureOf)

section \<open>The number of trend setters per component\<close>

lemma triangleGraph_eq:
  "triangleGraph =
     [(1, \<lparr>name = 1, neighbors = [2], followers = [3], isTrendSetter = False\<rparr>),
      (2, \<lparr>name = 2, neighbors = [3], followers = [1], isTrendSetter = False\<rparr>),
      (3, \<lparr>name = 3, neighbors = [1], followers = [2], isTrendSetter = False\<rparr>)]"
  by (simp add: triangleGraph_def addEdge_def addVertex_def getVertex_def newCapNode_def
      addNeighbor_def addFollower_def newCapGraph_def)

lemma getSCCs_triangleGraph: "getSCCs triangleGraph = Inr [triangleComponent]"
  by code_simp

lemma collectNodes_keys:
  "set ids \<subseteq> set (getVertexIDs this) \<Longrightarrow>
   \<exists>q. collectNodes this ids acc = Inr q \<and> map fst q = map fst acc @ ids"
proof (induction ids arbitrary: acc)
  case Nil
  then show ?case by simp
next
  case (Cons nodeID rest)
  then obtain node where n: "getVertex this nodeID = Inr node"
    using getVertex_of_key [of nodeID this] by auto
  from Cons.IH [of "acc @ [(nodeID, node)]"] Cons.prems n show ?case by auto
qed

lemma buildNodeQueue_keys:
  assumes "set (getVertexIDs scc) \<subseteq> set (getVertexIDs this)" "distinct (getVertexIDs scc)"
  shows "\<exists>q. buildNodeQueue this n scc = Inr q \<and> set (map fst q) = set (getVertexIDs scc)
             \<and> length q = length (getVertexIDs scc) \<and> distinct (map fst q)"
proof -
  from collectNodes_keys [OF assms(1), of "[]"] obtain q0 where
    q0: "collectNodes this (getVertexIDs scc) [] = Inr q0" "map fst q0 = getVertexIDs scc"
    by auto
  let ?q = "sort_key (\<lambda>(nodeID, node). - int (getNumNeighbors node)) q0"
  have s: "set (map fst ?q) = set (getVertexIDs scc)"
    using q0(2) by (metis set_map set_sort)
  have l: "length ?q = length (getVertexIDs scc)"
    using q0(2) by (metis length_map length_sort)
  have "card (set (map fst ?q)) = length (map fst ?q)"
    using s l assms(2) by (simp add: distinct_card)
  then have "distinct (map fst ?q)"
    by (rule card_distinct)
  with q0(1) s l show ?thesis
    by (simp add: buildNodeQueue_def)
qed

lemma card_take_distinct:
  "distinct xs \<Longrightarrow> k \<le> length xs \<Longrightarrow> card (set (take k xs)) = k"
  by (simp add: distinct_card distinct_take)

lemma numTrendSetters_le:
  "2 < m \<Longrightarrow> nat (calculatePercent m (1 / 10)) \<le> m"
  unfolding calculatePercent_10 by linarith


lemma getVertexIDs_markTrendSetters [simp]:
  "getVertexIDs (markTrendSetters i q g) = getVertexIDs g"
  using markTrendSetters_structure [of i q g] by (simp add: getVertexIDs_structureOf)

lemma rankComponents_counts:
  assumes "disjointKeys comps" "list_all (componentIn this) comps"
    "list_all (\<lambda>c. set (trendSetterIDs this) \<inter> set (getVertexIDs c) = {}) comps"
  shows "fst (rankComponents this comps) = None
     \<and> set (trendSetterIDs this) \<subseteq> set (trendSetterIDs (snd (rankComponents this comps)))
     \<and> set (trendSetterIDs (snd (rankComponents this comps)))
         \<subseteq> set (trendSetterIDs this) \<union> (\<Union>c \<in> set comps. set (getVertexIDs c))
     \<and> list_all (\<lambda>c. card (set (trendSetterIDs (snd (rankComponents this comps)))
                          \<inter> set (getVertexIDs c)) = numTrendSettersOf c) comps"
  using assms
proof (induction comps arbitrary: this)
  case Nil
  then show ?case by simp
next
  case (Cons scc rest)
  let ?m = "length (getVertexIDs scc)"
  let ?K = "set (getVertexIDs scc)"
  let ?M = "set (trendSetterIDs this)"
  from Cons.prems have dr: "disjointKeys rest"
    and away: "list_all (\<lambda>d. ?K \<inter> set (getVertexIDs d) = {}) rest"
    and cin: "componentIn this scc" and rin: "list_all (componentIn this) rest"
    and m0: "?M \<inter> ?K = {}"
    and mr: "list_all (\<lambda>c. ?M \<inter> set (getVertexIDs c) = {}) rest"
    by simp_all
  have restK: "(\<Union>c \<in> set rest. set (getVertexIDs c)) \<inter> ?K = {}"
    using away by (auto simp: list_all_iff)
  show ?case
  proof (cases "2 < ?m")
    case False
    from Cons.IH [OF dr rin mr]
    have ih: "fst (rankComponents this rest) = None"
      "?M \<subseteq> set (trendSetterIDs (snd (rankComponents this rest)))"
      "set (trendSetterIDs (snd (rankComponents this rest)))
         \<subseteq> ?M \<union> (\<Union>c \<in> set rest. set (getVertexIDs c))"
      "list_all (\<lambda>c. card (set (trendSetterIDs (snd (rankComponents this rest)))
                          \<inter> set (getVertexIDs c)) = numTrendSettersOf c) rest"
      by simp_all
    have eq: "rankComponents this (scc # rest) = rankComponents this rest"
      using False by (simp add: Let_def)
    have "set (trendSetterIDs (snd (rankComponents this rest))) \<inter> ?K = {}"
      using ih(3) m0 restK by blast
    then have "card (set (trendSetterIDs (snd (rankComponents this rest))) \<inter> ?K)
                 = numTrendSettersOf scc"
      using False by (simp add: numTrendSettersOf_def)
    with ih show ?thesis
      unfolding eq by auto
  next
    case True
    let ?k = "nat (calculatePercent ?m (1 / 10))"
    from cin have sub: "?K \<subseteq> set (getVertexIDs this)" and dist: "distinct (getVertexIDs scc)"
      by (simp_all add: componentIn_def)
    from buildNodeQueue_keys [OF sub dist, of ?m] obtain q where
      q: "buildNodeQueue this ?m scc = Inr q" "set (map fst q) = ?K"
      "length q = ?m" "distinct (map fst q)"
      by blast
    let ?this1 = "markTrendSetters ?k q this"
    let ?T = "set (take ?k (map fst q))"
    have eq: "rankComponents this (scc # rest) = rankComponents ?this1 rest"
      using True q(1) by (simp add: Let_def)
    have TK: "?T \<subseteq> ?K"
      using q(2) by (metis set_take_subset)
    have cardT: "card ?T = ?k"
      using q(3,4) numTrendSetters_le [OF True] by (intro card_take_distinct) simp_all
    have M1: "set (trendSetterIDs ?this1) = ?M \<union> ?T"
      using TK sub by (auto simp: markTrendSetters_marks take_map)
    have rin1: "list_all (componentIn ?this1) rest"
      using rin by (simp add: list_all_iff componentIn_def)
    have mr1: "list_all (\<lambda>c. set (trendSetterIDs ?this1) \<inter> set (getVertexIDs c) = {}) rest"
      using mr away TK unfolding M1 list_all_iff by blast
    from Cons.IH [OF dr rin1 mr1]
    have ih: "fst (rankComponents ?this1 rest) = None"
      "set (trendSetterIDs ?this1) \<subseteq> set (trendSetterIDs (snd (rankComponents ?this1 rest)))"
      "set (trendSetterIDs (snd (rankComponents ?this1 rest)))
         \<subseteq> set (trendSetterIDs ?this1) \<union> (\<Union>c \<in> set rest. set (getVertexIDs c))"
      "list_all (\<lambda>c. card (set (trendSetterIDs (snd (rankComponents ?this1 rest)))
                          \<inter> set (getVertexIDs c)) = numTrendSettersOf c) rest"
      by simp_all
    have "set (trendSetterIDs (snd (rankComponents ?this1 rest))) \<inter> ?K = ?T"
      using ih(2,3) M1 m0 restK TK by blast
    then have "card (set (trendSetterIDs (snd (rankComponents ?this1 rest))) \<inter> ?K)
                 = numTrendSettersOf scc"
      using cardT True by (simp add: numTrendSettersOf_def)
    with ih M1 TK show ?thesis
      unfolding eq by auto
  qed
qed

lemma count_marked:
  assumes "componentIn this' c"
  shows "length (filter (isMarked this') (getVertexIDs c))
           = card (set (trendSetterIDs this') \<inter> set (getVertexIDs c))"
proof -
  have "set (filter (isMarked this') (getVertexIDs c))
          = set (trendSetterIDs this') \<inter> set (getVertexIDs c)"
    using assms by (auto simp: trendSetterIDs_def componentIn_def)
  moreover have "distinct (filter (isMarked this') (getVertexIDs c))"
    using assms by (simp add: componentIn_def)
  ultimately show ?thesis
    by (metis distinct_card)
qed

text \<open>
  C6. On a graph without trend setters on which \<open>getSCCs\<close> returns,
  \<open>identifyTrendSetters\<close> ends without an error, and in the graph it leaves,
  the number of marked vertices among the members of a returned component of
  size \<open>m\<close> is \<open>ceil(0.1 * m)\<close> when \<open>m > 2\<close> and 0 otherwise. The marks are
  those of \<open>this\<close> graph, not of the component graphs.
\<close>

theorem identifyTrendSetters_marks_top_decile:
  assumes "getSCCs this = Inr comps" "trendSetterIDs this = []" "c \<in> set comps"
  shows "fst (identifyTrendSetters this) = None
     \<and> length (filter (isMarked (snd (identifyTrendSetters this))) (getVertexIDs c))
         = (if length (getVertexIDs c) > 2
            then nat (calculatePercent (length (getVertexIDs c)) (1 / 10)) else 0)
     \<and> calculatePercent (length (getVertexIDs c)) (1 / 10)
         = \<lceil>of_nat (length (getVertexIDs c)) * (1 / 10 :: rat)\<rceil>"
proof -
  from getSCCs_components [OF assms(1)]
  have d: "disjointKeys comps" and f: "list_all (componentFresh this {}) comps"
    by simp_all
  from f have cin: "list_all (componentIn this) comps"
    by (auto simp: list_all_iff componentFresh_def componentIn_def)
  have m: "list_all (\<lambda>c. set (trendSetterIDs this) \<inter> set (getVertexIDs c) = {}) comps"
    using assms(2) by (simp add: list_all_iff)
  have eq: "identifyTrendSetters this = rankComponents this comps"
    using assms(1) by (simp add: identifyTrendSetters_def getSCCList_def)
  from rankComponents_counts [OF d cin m] assms(3)
  have r: "fst (rankComponents this comps) = None"
    "card (set (trendSetterIDs (snd (rankComponents this comps))) \<inter> set (getVertexIDs c))
       = numTrendSettersOf c"
    by (auto simp: list_all_iff)
  have "componentIn (snd (rankComponents this comps)) c"
    using cin assms(3) rankComponents_structure [of this comps]
    by (auto simp: list_all_iff componentIn_def getVertexIDs_structureOf)
  from count_marked [OF this] r show ?thesis
    unfolding eq by (simp add: numTrendSettersOf_def calculatePercent_def)
qed


theorem identifyTrendSetters_marks_top_decile_witness:
  "getSCCs triangleGraph = Inr [triangleComponent]
   \<and> trendSetterIDs triangleGraph = []
   \<and> getVertexIDs triangleComponent = [2, 3, 1]
   \<and> fst (identifyTrendSetters triangleGraph) = None
   \<and> length (filter (isMarked (snd (identifyTrendSetters triangleGraph)))
              (getVertexIDs triangleComponent)) = 1"
proof -
  have fresh: "trendSetterIDs triangleGraph = []"
    by (simp add: triangleGraph_eq trendSetterIDs_def isMarked_def getVertex_def
        getVertexIDs_def getIsTrendSetter_def)
  have ids: "getVertexIDs triangleComponent = [2, 3, 1]"
    by (simp add: triangleComponent_def getVertexIDs_def)
  have "triangleComponent \<in> set [triangleComponent]"
    by simp
  from identifyTrendSetters_marks_top_decile [OF getSCCs_triangleGraph fresh this]
    getSCCs_triangleGraph fresh ids
  show ?thesis
    by (simp add: calculatePercent_10)
qed


end
